theory Spec2Isabelle
  imports Complex_Main "HOL-Library.Char_ord" "HOL-Library.List_Lexorder" "HOL-Library.Multiset"
begin

section \<open>The automod trigger registry (availableTriggers.ts)\<close>

text \<open>
  The sixteen blueprint objects that \<^verbatim>\<open>availableTriggers.ts\<close> imports, one constructor
  per imported name. Their bodies live in other modules; here they are opaque values.
\<close>

datatype AutomodTriggerBlueprint =
    MatchWordsTrigger
  | MatchRegexTrigger
  | MatchInvitesTrigger
  | MatchLinksTrigger
  | MatchAttachmentTypeTrigger
  | MemberJoinTrigger
  | RoleAddedTrigger
  | RoleRemovedTrigger
  | MessageSpamTrigger
  | MentionSpamTrigger
  | LinkSpamTrigger
  | AttachmentSpamTrigger
  | EmojiSpamTrigger
  | LineSpamTrigger
  | CharacterSpamTrigger
  | MemberJoinSpamTrigger

text \<open>
  The object literal of lines 20-38, as an association list in the order of the source.
  Reading an own property of the object is \<open>map_of\<close>.
\<close>

definition availableTriggers :: "(string \<times> AutomodTriggerBlueprint) list" where
  "availableTriggers =
    [ (''match_words'', MatchWordsTrigger),
      (''match_regex'', MatchRegexTrigger),
      (''match_invites'', MatchInvitesTrigger),
      (''match_links'', MatchLinksTrigger),
      (''match_attachment_type'', MatchAttachmentTypeTrigger),
      (''member_join'', MemberJoinTrigger),
      (''role_added'', RoleAddedTrigger),
      (''role_removed'', RoleRemovedTrigger),

      (''message_spam'', MessageSpamTrigger),
      (''mention_spam'', MentionSpamTrigger),
      (''link_spam'', LinkSpamTrigger),
      (''attachment_spam'', AttachmentSpamTrigger),
      (''emoji_spam'', EmojiSpamTrigger),
      (''line_spam'', LineSpamTrigger),
      (''character_spam'', CharacterSpamTrigger),
      (''member_join_spam'', MemberJoinSpamTrigger) ]"

text \<open>
  The io-ts object type of lines 40-58. Each field is \<^verbatim>\<open>X.configType\<close> for an imported
  blueprint \<^verbatim>\<open>X\<close>; the projection \<open>configType\<close> is a parameter, since the codecs
  themselves are declared with the blueprints.
\<close>

definition AvailableTriggers :: "(AutomodTriggerBlueprint \<Rightarrow> 'c) \<Rightarrow> (string \<times> 'c) list" where
  "AvailableTriggers configType =
    [ (''match_words'', configType MatchWordsTrigger),
      (''match_regex'', configType MatchRegexTrigger),
      (''match_invites'', configType MatchInvitesTrigger),
      (''match_links'', configType MatchLinksTrigger),
      (''match_attachment_type'', configType MatchAttachmentTypeTrigger),
      (''member_join'', configType MemberJoinTrigger),
      (''role_added'', configType RoleAddedTrigger),
      (''role_removed'', configType RoleRemovedTrigger),

      (''message_spam'', configType MessageSpamTrigger),
      (''mention_spam'', configType MentionSpamTrigger),
      (''link_spam'', configType LinkSpamTrigger),
      (''attachment_spam'', configType AttachmentSpamTrigger),
      (''emoji_spam'', configType EmojiSpamTrigger),
      (''line_spam'', configType LineSpamTrigger),
      (''character_spam'', configType CharacterSpamTrigger),
      (''member_join_spam'', configType MemberJoinSpamTrigger) ]"

datatype registry_error = UnknownTriggerKind

text \<open>
  Modelled from the spec: the registry operation \<^verbatim>\<open>get(kind) -> TriggerSpec\<close> of section 4.1
  is not among the source files; only the table it reads is. Following the spec's words, it
  looks the kind up in the registry and fails with \<open>UnknownTriggerKind\<close> if absent.
\<close>

definition get :: "string \<Rightarrow> registry_error + AutomodTriggerBlueprint" where
  "get kind =
    (case map_of availableTriggers kind of
       None \<Rightarrow> Inl UnknownTriggerKind
     | Some spec \<Rightarrow> Inr spec)"


section \<open>The sliding-window spam counter (spec section 4.2)\<close>

record SpamPoint =
  timestamp :: int
  weight :: int

text \<open>
  SpamWindowState: for every key, the points still inside the window; a key that has never
  received a point has no entry (the state is created lazily).
\<close>

type_synonym 'k SpamWindowState = "'k \<rightharpoonup> SpamPoint list"

definition points_of :: "'k SpamWindowState \<Rightarrow> 'k \<Rightarrow> SpamPoint list" where
  "points_of st key = (case st key of None \<Rightarrow> [] | Some ps \<Rightarrow> ps)"

definition purge :: "int \<Rightarrow> SpamPoint list \<Rightarrow> SpamPoint list" where
  "purge limit ps = filter (\<lambda>p. \<not> timestamp p < limit) ps"

text \<open>
  Modelled from the spec: the SpamTracker and its operation
  \<^verbatim>\<open>addPoint(tenant, actor, kind, timestamp, weight, windowSize) -> currentWindowCount\<close>
  are not among the source files. Following section 4.2, addPoint appends a SpamPoint, purges
  the points older than \<^verbatim>\<open>timestamp - windowSize\<close> for that key, and returns the sum of the
  weights remaining in the window. The key stands for the triple (tenant, actor, kind).
\<close>

definition addPoint ::
  "'k SpamWindowState \<Rightarrow> 'k \<Rightarrow> int \<Rightarrow> int \<Rightarrow> int \<Rightarrow> 'k SpamWindowState \<times> int" where
  "addPoint st key ts w windowSize =
    (let appended = points_of st key @ [\<lparr>timestamp = ts, weight = w\<rparr>];
         remaining = purge (ts - windowSize) appended
     in (st(key \<mapsto> remaining), sum_list (map weight remaining)))"

text \<open>
  Adding a sequence of points for one key, one call after the other; the result is the list
  of the counts that the calls return, in call order.
\<close>

fun addPoints :: "'k SpamWindowState \<Rightarrow> 'k \<Rightarrow> int \<Rightarrow> SpamPoint list \<Rightarrow> int list" where
  "addPoints st key windowSize [] = []"
| "addPoints st key windowSize (p # ps) =
    (case addPoint st key (timestamp p) (weight p) windowSize of
       (st', n) \<Rightarrow> n # addPoints st' key windowSize ps)"


section \<open>The clean command (CleanCmd.ts)\<close>

subsection \<open>Data\<close>

text \<open>
  The fields of a stored message that the command reads. \<open>saved_id\<close> is \<^verbatim>\<open>id\<close>,
  \<open>data_content\<close> is \<^verbatim>\<open>data.content\<close> (\<open>None\<close> when it is null or undefined), and
  \<open>posted_at\<close> is the number \<^verbatim>\<open>moment.utc(message.posted_at).valueOf()\<close>, in milliseconds.
\<close>

record SavedMessage =
  saved_id :: string
  user_id :: string
  is_bot :: bool
  data_content :: "string option"
  posted_at :: int

text \<open>A channel: its id, and whether it is an instance of \<^verbatim>\<open>TextChannel\<close>.\<close>

record Channel =
  channel_id :: string
  isTextChannel :: bool

text \<open>The invoking message \<^verbatim>\<open>msg\<close>; \<open>msg_author\<close> is the author's id.\<close>

record Message =
  msg_id :: string
  msg_channel :: Channel
  msg_author :: string
  msg_timestamp :: int

text \<open>
  The parsed arguments \<^verbatim>\<open>args\<close>. \<^verbatim>\<open>args.count\<close> is a JavaScript number, taken to be finite and
  not NaN, so a rational: it need not be whole. The subtraction in the loop takes a whole
  number below the count from the count, which is exact in double precision. An option that
  was not given is \<open>None\<close>; the switches are booleans.
\<close>

record Args =
  args_count :: rat
  args_user :: "string option"
  args_channel :: "string option"
  args_bots :: bool
  args_has_invites :: bool

record UtilityConfig =
  can_clean :: bool

text \<open>
  What the command imports or reaches through \<^verbatim>\<open>pluginData\<close>: the constants \<^verbatim>\<open>DAYS\<close> and
  \<^verbatim>\<open>SECONDS\<close> and the function \<^verbatim>\<open>getInviteCodesInString\<close> of utils, the guild's channel
  table, the permission configuration, the message store and the archive store. They are
  parameters of the model.
\<close>

record Env =
  DAYS :: int
  SECONDS :: int
  getInviteCodesInString :: "string \<Rightarrow> string list"
  channels_get :: "string \<Rightarrow> Channel option"
  getMatchingConfig :: "string \<Rightarrow> string \<Rightarrow> UtilityConfig"
  getLatestByChannelBeforeId :: "string \<Rightarrow> string \<Rightarrow> rat \<Rightarrow> SavedMessage list"
  createFromSavedMessages :: "SavedMessage list \<Rightarrow> string"
  getBaseUrl :: string
  getUrl :: "string \<Rightarrow> string \<Rightarrow> string"

datatype LogType = MESSAGE_DELETE | MESSAGE_DELETE_BULK | CLEAN

text \<open>
  A message that a timer callback deletes: the invoking message, or the message that a
  send into a channel returned (named by the channel and the text sent).
\<close>

datatype message_ref = InvokingMessage string | ResponseMessage string string

text \<open>\<^verbatim>\<open>m.delete().catch(noop)\<close>: a deletion whose failure is swallowed.\<close>

datatype timer_action = DeleteIgnoringFailure message_ref

text \<open>
  The calls that \<^verbatim>\<open>run\<close> and \<^verbatim>\<open>cleanMessages\<close> make on their collaborators, in the
  order they make them. \<open>SetTimeout\<close> registers a callback and a delay; the handle that
  \<^verbatim>\<open>setTimeout\<close> returns is dropped by the source, so the effect carries none.
\<close>

datatype effect =
    SendErrorMessage string string
  | SendSuccessMessage string string
  | GetLatestByChannelBeforeId string string rat
  | IgnoreLog LogType string
  | DeleteMessages string "string list"
  | MarkBulkAsDeleted "string list"
  | CreateFromSavedMessages "SavedMessage list"
  | LogClean string string nat string
  | SetTimeout "timer_action list" int

datatype js_error = TypeError

subsection \<open>Constants and small helpers\<close>

definition MAX_CLEAN_COUNT :: nat where
  "MAX_CLEAN_COUNT = 150"

definition MAX_CLEAN_TIME :: "Env \<Rightarrow> int" where
  "MAX_CLEAN_TIME env = 1 * DAYS env"

definition CLEAN_COMMAND_DELETE_DELAY :: "Env \<Rightarrow> int" where
  "CLEAN_COMMAND_DELETE_DELAY env = 5 * SECONDS env"

text \<open>JavaScript truthiness of a value that is a string or undefined.\<close>

definition truthy :: "string option \<Rightarrow> bool" where
  "truthy v = (case v of None \<Rightarrow> False | Some s \<Rightarrow> s \<noteq> [])"

text \<open>
  \<^verbatim>\<open>xs.slice(0, end)\<close>: the end is truncated towards zero, and a negative end counts from
  the end of the array.
\<close>

definition slice0 :: "'a list \<Rightarrow> rat \<Rightarrow> 'a list" where
  "slice0 xs end =
    (let k = (if end < 0 then \<lceil>end\<rceil> else \<lfloor>end\<rfloor>)
     in if k < 0 then take (nat (int (length xs) + k)) xs else take (nat k) xs)"

text \<open>A natural number in a template string: its decimal digits.\<close>

definition digit :: "nat \<Rightarrow> char" where
  "digit d = ''0123456789'' ! d"

function string_of_nat :: "nat \<Rightarrow> string" where
  "string_of_nat n = (if n < 10 then [digit n] else string_of_nat (n div 10) @ [digit (n mod 10)])"
  by pat_completeness auto
termination
  by (relation "measure (\<lambda>n. n)") auto

declare string_of_nat.simps [simp del]

subsection \<open>cleanMessages\<close>

text \<open>
  Lines 15-49. \<^verbatim>\<open>savedMessages[0].id\<close> throws a TypeError on an empty array. The sort
  orders the messages by id, compared as strings; \<open>sort_key\<close> is that order when the ids are
  distinct, as the ids of stored messages are; \<open>mod_user\<close> is the id of \<^verbatim>\<open>mod\<close>. The sorted
  array is as long as the given one, so \<^verbatim>\<open>idsToDelete[0]\<close> exists where it is read. The
  result is the calls made and the archive URL returned.
\<close>

definition cleanMessages ::
  "Env \<Rightarrow> Channel \<Rightarrow> SavedMessage list \<Rightarrow> string \<Rightarrow> js_error + (effect list \<times> string)" where
  "cleanMessages env channel savedMessages mod_user =
    (case savedMessages of
       [] \<Rightarrow> Inl TypeError
     | first # _ \<Rightarrow>
        (let sortedMessages = sort_key saved_id savedMessages;
             idsToDelete = map saved_id sortedMessages;
             archiveId = createFromSavedMessages env sortedMessages;
             archiveUrl = getUrl env (getBaseUrl env) archiveId
         in Inr
           ([IgnoreLog MESSAGE_DELETE (saved_id first),
             IgnoreLog MESSAGE_DELETE_BULK (saved_id first)]
            @ map (IgnoreLog MESSAGE_DELETE) idsToDelete
            @ [IgnoreLog MESSAGE_DELETE_BULK (hd idsToDelete),
               DeleteMessages (channel_id channel) idsToDelete,
               MarkBulkAsDeleted idsToDelete,
               CreateFromSavedMessages sortedMessages,
               LogClean mod_user (channel_id channel) (length sortedMessages) archiveUrl],
            archiveUrl)))"

subsection \<open>The paging loop of run\<close>

text \<open>The filter callback of lines 101-107.\<close>

definition message_filter :: "Env \<Rightarrow> Args \<Rightarrow> int \<Rightarrow> SavedMessage \<Rightarrow> bool" where
  "message_filter env args timeCutoff message =
    (if truthy (args_user args) \<and> Some (user_id message) \<noteq> args_user args then False
     else if args_bots args \<and> \<not> is_bot message then False
     else if args_has_invites args
             \<and> length (getInviteCodesInString env
                         (case data_content message of None \<Rightarrow> [] | Some c \<Rightarrow> c)) = 0
          then False
     else if posted_at message < timeCutoff then False
     else True)"

text \<open>
  One record per execution of the loop body: the three arguments of the fetch, the batch it
  returned, and \<^verbatim>\<open>messagesToClean\<close> and \<^verbatim>\<open>beforeId\<close> as the body leaves them.
\<close>

record iteration =
  it_channelId :: string
  it_beforeId :: string
  it_limit :: rat
  potentialMessagesToClean :: "SavedMessage list"
  messagesToClean_after :: "SavedMessage list"
  beforeId_after :: string

text \<open>
  Lines 93-117. The loop may not end (nothing in the command bounds the number of batches
  the store hands out), so it runs on fuel, one unit for each evaluation of the loop
  condition: \<open>None\<close> is a loop that has not stopped within the fuel.
\<close>

fun paging_loop ::
  "Env \<Rightarrow> Args \<Rightarrow> Channel \<Rightarrow> int \<Rightarrow> nat \<Rightarrow> SavedMessage list \<Rightarrow> string
    \<Rightarrow> (SavedMessage list \<times> iteration list) option" where
  "paging_loop env args targetChannel timeCutoff 0 messagesToClean beforeId = None"
| "paging_loop env args targetChannel timeCutoff (Suc fuel) messagesToClean beforeId =
    (if \<not> of_nat (length messagesToClean) < args_count args then Some (messagesToClean, [])
     else
      let potential = getLatestByChannelBeforeId env (channel_id targetChannel) beforeId (args_count args)
      in if length potential = 0
         then Some (messagesToClean,
                [\<lparr>it_channelId = channel_id targetChannel, it_beforeId = beforeId,
                  it_limit = args_count args, potentialMessagesToClean = potential,
                  messagesToClean_after = messagesToClean, beforeId_after = beforeId\<rparr>])
         else
          let filtered = filter (message_filter env args timeCutoff) potential;
              remaining = args_count args - of_nat (length messagesToClean);
              withoutOverflow = slice0 filtered remaining;
              collected = messagesToClean @ withoutOverflow;
              nextId = saved_id (last potential);
              this = \<lparr>it_channelId = channel_id targetChannel, it_beforeId = beforeId,
                      it_limit = args_count args, potentialMessagesToClean = potential,
                      messagesToClean_after = collected, beforeId_after = nextId\<rparr>
          in if posted_at (last potential) < timeCutoff then Some (collected, [this])
             else map_option (\<lambda>(result, its). (result, this # its))
                    (paging_loop env args targetChannel timeCutoff fuel collected nextId))"

text \<open>
  What one execution of the loop body records when it starts with \<^verbatim>\<open>messagesToClean = acc\<close>
  and \<^verbatim>\<open>beforeId = b\<close>; the loop above builds the same record in either branch.
\<close>

definition iteration_from ::
  "Env \<Rightarrow> Args \<Rightarrow> Channel \<Rightarrow> int \<Rightarrow> SavedMessage list \<Rightarrow> string \<Rightarrow> iteration" where
  "iteration_from env args tc cutoff acc b =
    (let potential = getLatestByChannelBeforeId env (channel_id tc) b (args_count args)
     in \<lparr>it_channelId = channel_id tc, it_beforeId = b, it_limit = args_count args,
         potentialMessagesToClean = potential,
         messagesToClean_after =
           (if potential = [] then acc
            else acc @ slice0 (filter (message_filter env args cutoff) potential)
                         (args_count args - of_nat (length acc))),
         beforeId_after = (if potential = [] then b else saved_id (last potential))\<rparr>)"

text \<open>
  The executions of the loop body one after the other, as long as no exit is taken: the
  first starts with \<^verbatim>\<open>messagesToClean = acc\<close> and \<^verbatim>\<open>beforeId = b\<close>, each later one with what
  the one before it left.
\<close>

primrec nth_iteration ::
  "Env \<Rightarrow> Args \<Rightarrow> Channel \<Rightarrow> int \<Rightarrow> SavedMessage list \<Rightarrow> string \<Rightarrow> nat \<Rightarrow> iteration" where
  "nth_iteration env args tc cutoff acc b 0 = iteration_from env args tc cutoff acc b"
| "nth_iteration env args tc cutoff acc b (Suc k) =
    iteration_from env args tc cutoff
      (messagesToClean_after (nth_iteration env args tc cutoff acc b k))
      (beforeId_after (nth_iteration env args tc cutoff acc b k))"

text \<open>
  The three ways out of the loop, seen from the end of one execution of the body: the
  \<^verbatim>\<open>break\<close> on an empty batch (line 99), the \<^verbatim>\<open>break\<close> on a batch whose last message was
  posted before the cutoff (lines 114-116), and the loop condition of line 93 failing on
  what has been collected.
\<close>

definition stops_at :: "Args \<Rightarrow> int \<Rightarrow> iteration \<Rightarrow> bool" where
  "stops_at args cutoff it =
    (potentialMessagesToClean it = []
     \<or> posted_at (last (potentialMessagesToClean it)) < cutoff
     \<or> \<not> of_nat (length (messagesToClean_after it)) < args_count args)"

subsection \<open>run\<close>

text \<open>The calls on the message store that the iterations of the loop made, in order.\<close>

definition fetches_of :: "iteration list \<Rightarrow> effect list" where
  "fetches_of its =
    map (\<lambda>it. GetLatestByChannelBeforeId (it_channelId it) (it_beforeId it) (it_limit it)) its"

text \<open>Line 72: the channel the command works on, if there is one.\<close>

definition targetChannel_of :: "Env \<Rightarrow> Message \<Rightarrow> Args \<Rightarrow> Channel option" where
  "targetChannel_of env msg args =
    (case args_channel args of
       None \<Rightarrow> Some (msg_channel msg)
     | Some c \<Rightarrow> if truthy (Some c) then channels_get env c else Some (msg_channel msg))"

text \<open>Lines 133-140: the delayed deletion of the command and of the response.\<close>

definition schedule_cleanup :: "Env \<Rightarrow> Message \<Rightarrow> Channel \<Rightarrow> message_ref \<Rightarrow> effect list" where
  "schedule_cleanup env msg targetChannel responseMsg =
    (if channel_id targetChannel = channel_id (msg_channel msg)
     then [SetTimeout [DeleteIgnoringFailure (InvokingMessage (msg_id msg)),
                       DeleteIgnoringFailure responseMsg]
             (CLEAN_COMMAND_DELETE_DELAY env)]
     else [])"

text \<open>
  Lines 66-141. The result is \<open>None\<close> when the paging loop has not stopped within the fuel,
  \<open>Inl\<close> when a statement throws, and otherwise the calls made, in order.
\<close>

definition run :: "Env \<Rightarrow> Message \<Rightarrow> Args \<Rightarrow> nat \<Rightarrow> (js_error + effect list) option" where
  "run env msg args fuel =
    (if args_count args > of_nat MAX_CLEAN_COUNT \<or> args_count args \<le> 0
     then Some (Inr [SendErrorMessage (channel_id (msg_channel msg))
                       (''Clean count must be between 1 and '' @ string_of_nat MAX_CLEAN_COUNT)])
     else case targetChannel_of env msg args of
       None \<Rightarrow> Some (Inr [SendErrorMessage (channel_id (msg_channel msg)) ''Invalid channel specified''])
     | Some targetChannel \<Rightarrow>
        if \<not> isTextChannel targetChannel
        then Some (Inr [SendErrorMessage (channel_id (msg_channel msg)) ''Invalid channel specified''])
        else if channel_id targetChannel \<noteq> channel_id (msg_channel msg)
                \<and> \<not> can_clean (getMatchingConfig env (msg_author msg) (channel_id targetChannel))
        then Some (Inr [SendErrorMessage (channel_id (msg_channel msg))
                          ''Missing permissions to use clean on that channel''])
        else
         let timeCutoff = msg_timestamp msg - MAX_CLEAN_TIME env
         in case paging_loop env args targetChannel timeCutoff fuel [] (msg_id msg) of
              None \<Rightarrow> None
            | Some (messagesToClean, its) \<Rightarrow>
               let fetches = fetches_of its
               in if length messagesToClean > 0
                  then case cleanMessages env targetChannel messagesToClean (msg_author msg) of
                         Inl e \<Rightarrow> Some (Inl e)
                       | Inr (cleaning, archiveUrl) \<Rightarrow>
                          let responseText =
                                ''Cleaned '' @ string_of_nat (length messagesToClean) @ '' ''
                                @ (if length messagesToClean = 1 then ''message'' else ''messages'')
                                @ (if channel_id targetChannel \<noteq> channel_id (msg_channel msg)
                                   then '' in <#'' @ channel_id targetChannel @ ''>''
                                        @ [CHR 0x0A] @ archiveUrl
                                   else [])
                          in Some (Inr (fetches @ cleaning
                                @ [SendSuccessMessage (channel_id (msg_channel msg)) responseText]
                                @ schedule_cleanup env msg targetChannel
                                    (ResponseMessage (channel_id (msg_channel msg)) responseText)))
                  else Some (Inr (fetches
                         @ [SendErrorMessage (channel_id (msg_channel msg)) ''Found no messages to clean!'']
                         @ schedule_cleanup env msg targetChannel
                             (ResponseMessage (channel_id (msg_channel msg))
                                ''Found no messages to clean!''))))"


section \<open>Example data\<close>

text \<open>
  A channel \<^verbatim>\<open>c1\<close> with three stored messages, handed out in two batches, and a command
  \<^verbatim>\<open>!clean 3\<close> posted there; the properties below are exercised on it.
\<close>

definition example_m80 :: SavedMessage where
  "example_m80 = \<lparr>saved_id = ''80'', user_id = ''u1'', is_bot = False,
                   data_content = Some ''hello'', posted_at = 99999000\<rparr>"

definition example_m70 :: SavedMessage where
  "example_m70 = \<lparr>saved_id = ''70'', user_id = ''u2'', is_bot = True,
                   data_content = None, posted_at = 99998000\<rparr>"

definition example_m60 :: SavedMessage where
  "example_m60 = \<lparr>saved_id = ''60'', user_id = ''u1'', is_bot = False,
                   data_content = Some ''bye'', posted_at = 99997000\<rparr>"

definition example_env :: Env where
  "example_env =
    \<lparr>DAYS = 86400000, SECONDS = 1000,
     getInviteCodesInString = (\<lambda>s. []),
     channels_get = (\<lambda>c. if c = ''c2'' then Some \<lparr>channel_id = ''c2'', isTextChannel = True\<rparr> else None),
     getMatchingConfig = (\<lambda>u c. \<lparr>can_clean = True\<rparr>),
     getLatestByChannelBeforeId =
       (\<lambda>c b l. if b = ''90'' then [example_m80, example_m70]
                else if b = ''70'' then [example_m60] else []),
     createFromSavedMessages = (\<lambda>ms. ''1''),
     getBaseUrl = ''https://example.org'',
     getUrl = (\<lambda>base a. base @ ''/archives/'' @ a)\<rparr>"

definition example_msg :: Message where
  "example_msg = \<lparr>msg_id = ''90'', msg_channel = \<lparr>channel_id = ''c1'', isTextChannel = True\<rparr>,
                   msg_author = ''mod'', msg_timestamp = 100000000\<rparr>"

definition example_args :: Args where
  "example_args = \<lparr>args_count = 3, args_user = None, args_channel = None,
                    args_bots = False, args_has_invites = False\<rparr>"

definition example_iterations :: "iteration list" where
  "example_iterations =
    [\<lparr>it_channelId = ''c1'', it_beforeId = ''90'', it_limit = 3,
      potentialMessagesToClean = [example_m80, example_m70],
      messagesToClean_after = [example_m80, example_m70], beforeId_after = ''70''\<rparr>,
     \<lparr>it_channelId = ''c1'', it_beforeId = ''70'', it_limit = 3,
      potentialMessagesToClean = [example_m60],
      messagesToClean_after = [example_m80, example_m70, example_m60], beforeId_after = ''60''\<rparr>]"

definition example_effects :: "effect list" where
  "example_effects =
     [GetLatestByChannelBeforeId ''c1'' ''90'' 3,
      GetLatestByChannelBeforeId ''c1'' ''70'' 3,
      IgnoreLog MESSAGE_DELETE ''80'',
      IgnoreLog MESSAGE_DELETE_BULK ''80'',
      IgnoreLog MESSAGE_DELETE ''60'',
      IgnoreLog MESSAGE_DELETE ''70'',
      IgnoreLog MESSAGE_DELETE ''80'',
      IgnoreLog MESSAGE_DELETE_BULK ''60'',
      DeleteMessages ''c1'' [''60'', ''70'', ''80''],
      MarkBulkAsDeleted [''60'', ''70'', ''80''],
      CreateFromSavedMessages [example_m60, example_m70, example_m80],
      LogClean ''mod'' ''c1'' 3 ''https://example.org/archives/1'',
      SendSuccessMessage ''c1'' ''Cleaned 3 messages'',
      SetTimeout
        [DeleteIgnoringFailure (InvokingMessage ''90''),
         DeleteIgnoringFailure (ResponseMessage ''c1'' ''Cleaned 3 messages'')]
        5000]"

text \<open>The same command with the option \<^verbatim>\<open>-user u1\<close>.\<close>

definition example_effects_user :: "effect list" where
  "example_effects_user =
     [GetLatestByChannelBeforeId ''c1'' ''90'' 3,
      GetLatestByChannelBeforeId ''c1'' ''70'' 3,
      GetLatestByChannelBeforeId ''c1'' ''60'' 3,
      IgnoreLog MESSAGE_DELETE ''80'',
      IgnoreLog MESSAGE_DELETE_BULK ''80'',
      IgnoreLog MESSAGE_DELETE ''60'',
      IgnoreLog MESSAGE_DELETE ''80'',
      IgnoreLog MESSAGE_DELETE_BULK ''60'',
      DeleteMessages ''c1'' [''60'', ''80''],
      MarkBulkAsDeleted [''60'', ''80''],
      CreateFromSavedMessages [example_m60, example_m80],
      LogClean ''mod'' ''c1'' 2 ''https://example.org/archives/1'',
      SendSuccessMessage ''c1'' ''Cleaned 2 messages'',
      SetTimeout
        [DeleteIgnoringFailure (InvokingMessage ''90''),
         DeleteIgnoringFailure (ResponseMessage ''c1'' ''Cleaned 2 messages'')]
        5000]"




section \<open>Properties of the registry\<close>

text \<open>
  C1. The registry maps exactly the sixteen trigger kinds of the spec: the eight
  instantaneous kinds and the eight windowed kinds. It has sixteen entries, no key occurs
  twice, and there is no other key.
\<close>

theorem availableTriggers_sixteen_kinds:
  "dom (map_of availableTriggers) =
      {''match_words'', ''match_regex'', ''match_invites'', ''match_links'',
       ''match_attachment_type'', ''member_join'', ''role_added'', ''role_removed''}
    \<union> {''message_spam'', ''mention_spam'', ''link_spam'', ''attachment_spam'',
       ''emoji_spam'', ''line_spam'', ''character_spam'', ''member_join_spam''}
   \<and> length availableTriggers = 16
   \<and> distinct (map fst availableTriggers)"
  by (simp add: availableTriggers_def dom_map_of_conv_image_fst insert_commute)

text \<open>
  C2. The schema object has the same keys as the registry, in the same order, and under
  every key it holds the configType of the blueprint that the registry holds under that key
  (and nothing where the registry holds nothing).
\<close>

theorem AvailableTriggers_matches_registry:
  "map fst (AvailableTriggers configType) = map fst availableTriggers
   \<and> (\<forall>kind. map_of (AvailableTriggers configType) kind
               = map_option configType (map_of availableTriggers kind))"
  by (simp add: AvailableTriggers_def availableTriggers_def)

text \<open>
  C3. Looking up a kind that is not a key of the registry fails with UnknownTriggerKind.
\<close>

theorem get_absent_kind_fails:
  assumes "kind \<notin> fst ` set availableTriggers"
  shows "get kind = Inl UnknownTriggerKind"
proof -
  from assms have "map_of availableTriggers kind = None"
    by (simp add: map_of_eq_None_iff)
  then show ?thesis by (simp add: get_def)
qed

theorem get_absent_kind_fails_witness:
  "''match_emoji'' \<notin> fst ` set availableTriggers \<and> get ''match_emoji'' = Inl UnknownTriggerKind"
proof -
  have absent: "''match_emoji'' \<notin> fst ` set availableTriggers"
    by (simp add: availableTriggers_def)
  from get_absent_kind_fails [OF absent] absent show ?thesis by simp
qed


section \<open>Properties of the spam counter\<close>

lemma purge_keeps_all:
  "\<forall>p\<in>set ps. limit \<le> timestamp p \<Longrightarrow> purge limit ps = ps"
  by (induction ps) (auto simp: purge_def)

lemma addPoints_within_window:
  assumes "\<forall>p\<in>set (points_of st key @ ps). \<forall>q\<in>set (points_of st key @ ps). timestamp q - W \<le> timestamp p"
    and "i < length ps"
  shows "addPoints st key W ps ! i
         = sum_list (map weight (points_of st key)) + sum_list (map weight (take (Suc i) ps))"
  using assms
proof (induction ps arbitrary: st i)
  case Nil
  then show ?case by simp
next
  case (Cons p ps)
  let ?st' = "st(key \<mapsto> points_of st key @ [p])"
  have keep: "purge (timestamp p - W) (points_of st key @ [p]) = points_of st key @ [p]"
    using Cons.prems(1) by (intro purge_keeps_all) auto
  have p: "\<lparr>timestamp = timestamp p, weight = weight p\<rparr> = p" by simp
  have step: "addPoint st key (timestamp p) (weight p) W
              = (?st', sum_list (map weight (points_of st key)) + weight p)"
    unfolding addPoint_def Let_def p keep by simp
  have pts': "points_of ?st' key = points_of st key @ [p]"
    by (simp add: points_of_def)
  show ?case
  proof (cases i)
    case 0
    then show ?thesis by (simp add: step)
  next
    case (Suc j)
    with Cons.prems have j: "j < length ps" by simp
    have win: "\<forall>a\<in>set (points_of ?st' key @ ps). \<forall>b\<in>set (points_of ?st' key @ ps). timestamp b - W \<le> timestamp a"
      using Cons.prems(1) unfolding pts' by simp
    have "addPoints ?st' key W ps ! j
          = sum_list (map weight (points_of ?st' key)) + sum_list (map weight (take (Suc j) ps))"
      using win j by (rule Cons.IH)
    then have rest: "addPoints ?st' key W ps ! j
          = sum_list (map weight (points_of st key)) + weight p + sum_list (map weight (take (Suc j) ps))"
      unfolding pts' by simp
    have "addPoints st key W (p # ps) ! i = addPoints ?st' key W ps ! j"
      by (simp add: Suc step)
    with rest show ?thesis by (simp add: Suc)
  qed
qed

text \<open>
  Points inserted in timestamp order, over any span of time: what a call purges would not
  count in any later call, so every call returns the sum over its own window.
\<close>

lemma purge_purge: "a \<le> b \<Longrightarrow> purge b (purge a ps) = purge b ps"
  by (induction ps) (auto simp: purge_def)

lemma addPoints_in_order:
  assumes "sorted (map timestamp ps)"
    and "points_of st key = purge limit pre"
    and "\<forall>p\<in>set ps. limit \<le> timestamp p - W"
    and "i < length ps"
  shows "addPoints st key W ps ! i
         = sum_list (map weight (purge (timestamp (ps ! i) - W) (pre @ take (Suc i) ps)))"
  using assms
proof (induction ps arbitrary: st pre limit i)
  case Nil
  then show ?case by simp
next
  case (Cons p ps)
  let ?now = "timestamp p - W"
  let ?st' = "st(key \<mapsto> purge ?now (pre @ [p]))"
  have p: "\<lparr>timestamp = timestamp p, weight = weight p\<rparr> = p" by simp
  have "limit \<le> ?now" using Cons.prems(3) by simp
  then have "purge ?now (purge limit pre @ [p]) = purge ?now (pre @ [p])"
    using purge_purge [of limit ?now pre] by (simp add: purge_def)
  then have step: "addPoint st key (timestamp p) (weight p) W
              = (?st', sum_list (map weight (purge ?now (pre @ [p]))))"
    unfolding addPoint_def Let_def p Cons.prems(2) by simp
  show ?case
  proof (cases i)
    case 0
    then show ?thesis by (simp add: step)
  next
    case (Suc j)
    with Cons.prems(4) have j: "j < length ps" by simp
    have sorted: "sorted (map timestamp ps)" using Cons.prems(1) by simp
    have pts: "points_of ?st' key = purge ?now (pre @ [p])" by (simp add: points_of_def)
    have later: "\<forall>q\<in>set ps. ?now \<le> timestamp q - W" using Cons.prems(1) by simp
    have rest: "addPoints ?st' key W ps ! j
          = sum_list (map weight (purge (timestamp (ps ! j) - W) ((pre @ [p]) @ take (Suc j) ps)))"
      using sorted pts later j by (rule Cons.IH)
    have "addPoints st key W (p # ps) ! i = addPoints ?st' key W ps ! j"
      by (simp add: Suc step)
    with rest show ?thesis by (simp add: Suc)
  qed
qed

lemma addPoints_in_order_from_empty:
  assumes "sorted (map timestamp ps)" and "i < length ps"
  shows "addPoints Map.empty key W ps ! i
         = sum_list (map weight (filter (\<lambda>p. timestamp (ps ! i) - W \<le> timestamp p) (take (Suc i) ps)))"
proof -
  obtain limit where limit: "\<forall>p\<in>set ps. limit \<le> timestamp p - W"
  proof
    show "\<forall>p\<in>set ps. Min (timestamp ` set ps) - W \<le> timestamp p - W"
      by simp
  qed
  have start: "points_of Map.empty key = purge limit []"
    by (simp add: points_of_def purge_def)
  from addPoints_in_order [OF assms(1) start limit assms(2)] show ?thesis
    by (simp add: purge_def not_less)
qed

text \<open>
  Points that all lie within a window \<open>W\<close> of one another, inserted in any order: no call
  purges anything, and the last call returns the total weight whatever the order.
\<close>

lemma addPoints_any_order_within_window:
  assumes "\<forall>p\<in>set points. \<forall>q\<in>set points. timestamp q - W \<le> timestamp p"
    and "mset inserted = mset points"
    and "i < length inserted"
  shows "addPoints Map.empty key W inserted ! i
           = sum_list (map weight (filter (\<lambda>p. timestamp (inserted ! i) - W \<le> timestamp p)
                                     (take (Suc i) inserted)))
       \<and> (Suc i = length inserted \<longrightarrow>
             addPoints Map.empty key W inserted ! i = sum_list (map weight points))"
proof -
  have same: "set inserted = set points"
    using assms(2) by (rule mset_eq_setD)
  have window: "\<forall>p\<in>set (points_of Map.empty key @ inserted).
                 \<forall>q\<in>set (points_of Map.empty key @ inserted). timestamp q - W \<le> timestamp p"
    using assms(1) by (simp add: points_of_def same)
  have count: "addPoints Map.empty key W inserted ! i = sum_list (map weight (take (Suc i) inserted))"
    using addPoints_within_window [OF window assms(3)] by (simp add: points_of_def)
  have now: "inserted ! i \<in> set points"
    using assms(3) same by auto
  have "\<forall>p\<in>set (take (Suc i) inserted). timestamp (inserted ! i) - W \<le> timestamp p"
    using assms(1) now same by (auto dest: in_set_takeD)
  then have all: "filter (\<lambda>p. timestamp (inserted ! i) - W \<le> timestamp p) (take (Suc i) inserted)
                  = take (Suc i) inserted"
    by (simp only: filter_True)
  have total: "sum_list (map weight inserted) = sum_list (map weight points)"
  proof -
    have "mset (map weight inserted) = mset (map weight points)"
      using assms(2) by simp
    then show ?thesis by (metis sum_mset_sum_list)
  qed
  from count all total show ?thesis by auto
qed









section \<open>Properties of the clean command\<close>

subsection \<open>The loop and the command, case by case\<close>

lemma string_of_nat_MAX: "string_of_nat MAX_CLEAN_COUNT = ''150''"
  unfolding MAX_CLEAN_COUNT_def by code_simp

lemma set_slice0: "set (slice0 xs e) \<subseteq> set xs"
  by (auto simp: slice0_def Let_def dest: in_set_takeD)

lemma length_slice0:
  assumes "0 \<le> e"
  shows "(of_nat (length (slice0 xs e)) :: rat) \<le> e"
proof -
  have k: "0 \<le> \<lfloor>e\<rfloor>" using assms by simp
  have "length (slice0 xs e) \<le> nat \<lfloor>e\<rfloor>"
    using assms k by (simp add: slice0_def Let_def)
  then have "(of_nat (length (slice0 xs e)) :: rat) \<le> of_nat (nat \<lfloor>e\<rfloor>)"
    by (simp only: of_nat_le_iff)
  also have "\<dots> = of_int \<lfloor>e\<rfloor>" using k by simp
  also have "\<dots> \<le> e" by simp
  finally show ?thesis .
qed

lemma append_slice0_bound:
  assumes "(of_nat (length acc) :: rat) < c"
  shows "(of_nat (length (acc @ slice0 xs (c - of_nat (length acc)))) :: rat) \<le> c"
proof -
  have "(of_nat (length (slice0 xs (c - of_nat (length acc)))) :: rat) \<le> c - of_nat (length acc)"
    using assms by (intro length_slice0) simp
  then show ?thesis by simp
qed

lemma loop_collected_bound:
  assumes "paging_loop env args tc cutoff fuel acc b = Some (r, its)"
    and "of_nat (length acc) \<le> args_count args"
  shows "of_nat (length r) \<le> args_count args
       \<and> (\<forall>it\<in>set its. of_nat (length (messagesToClean_after it)) \<le> args_count args)"
  using assms
proof (induction fuel arbitrary: acc b r its)
  case 0
  then show ?case by simp
next
  case (Suc fuel)
  let ?c = "args_count args"
  show ?case
  proof (cases "of_nat (length acc) < ?c")
    case False
    with Suc.prems show ?thesis by simp
  next
    case True
    let ?batch = "getLatestByChannelBeforeId env (channel_id tc) b ?c"
    let ?acc' = "acc @ slice0 (filter (message_filter env args cutoff) ?batch) (?c - of_nat (length acc))"
    have bound': "of_nat (length ?acc') \<le> ?c"
      using True by (rule append_slice0_bound)
    show ?thesis
    proof (cases "?batch = []")
      case True
      with Suc.prems \<open>of_nat (length acc) < ?c\<close> show ?thesis by (auto simp: Let_def)
    next
      case nonempty: False
      show ?thesis
      proof (cases "posted_at (last ?batch) < cutoff")
        case True
        with Suc.prems \<open>of_nat (length acc) < ?c\<close> nonempty bound' show ?thesis
          by (auto simp: Let_def)
      next
        case False
        with Suc.prems \<open>of_nat (length acc) < ?c\<close> nonempty
        obtain rest where rec: "paging_loop env args tc cutoff fuel ?acc' (saved_id (last ?batch)) = Some (r, rest)"
          and its: "its = \<lparr>it_channelId = channel_id tc, it_beforeId = b, it_limit = ?c,
                 potentialMessagesToClean = ?batch, messagesToClean_after = ?acc',
                 beforeId_after = saved_id (last ?batch)\<rparr> # rest"
          by (auto simp: Let_def)
        from Suc.IH [OF rec bound'] its bound' show ?thesis by simp
      qed
    qed
  qed
qed

lemma iteration_from_fields:
  "it_channelId (iteration_from env args tc cutoff acc b) = channel_id tc"
  "it_beforeId (iteration_from env args tc cutoff acc b) = b"
  "it_limit (iteration_from env args tc cutoff acc b) = args_count args"
  "potentialMessagesToClean (iteration_from env args tc cutoff acc b)
     = getLatestByChannelBeforeId env (channel_id tc) b (args_count args)"
  by (simp_all add: iteration_from_def Let_def)

lemma iteration_from_after:
  "messagesToClean_after (iteration_from env args tc cutoff acc b)
     = (if getLatestByChannelBeforeId env (channel_id tc) b (args_count args) = [] then acc
        else acc @ slice0 (filter (message_filter env args cutoff)
                             (getLatestByChannelBeforeId env (channel_id tc) b (args_count args)))
                      (args_count args - of_nat (length acc)))"
  "beforeId_after (iteration_from env args tc cutoff acc b)
     = (if getLatestByChannelBeforeId env (channel_id tc) b (args_count args) = [] then b
        else saved_id (last (getLatestByChannelBeforeId env (channel_id tc) b (args_count args))))"
  by (simp_all add: iteration_from_def Let_def)

lemma paging_loop_Suc:
  "paging_loop env args tc cutoff (Suc fuel) acc b =
    (if \<not> of_nat (length acc) < args_count args then Some (acc, [])
     else if potentialMessagesToClean (iteration_from env args tc cutoff acc b) = []
             \<or> posted_at (last (potentialMessagesToClean (iteration_from env args tc cutoff acc b))) < cutoff
          then Some (messagesToClean_after (iteration_from env args tc cutoff acc b),
                     [iteration_from env args tc cutoff acc b])
     else map_option (\<lambda>(result, its). (result, iteration_from env args tc cutoff acc b # its))
            (paging_loop env args tc cutoff fuel
               (messagesToClean_after (iteration_from env args tc cutoff acc b))
               (beforeId_after (iteration_from env args tc cutoff acc b))))"
  by (simp add: iteration_from_def Let_def)

lemma paging_loop_cases:
  assumes "paging_loop env args tc cutoff fuel acc b = Some (r, its)"
  obtains
    (exit) "\<not> of_nat (length acc) < args_count args" "r = acc" "its = []"
  | (final) "of_nat (length acc) < args_count args"
      "its = [iteration_from env args tc cutoff acc b]"
      "r = messagesToClean_after (iteration_from env args tc cutoff acc b)"
      "potentialMessagesToClean (iteration_from env args tc cutoff acc b) = []
       \<or> posted_at (last (potentialMessagesToClean (iteration_from env args tc cutoff acc b))) < cutoff"
  | (again) fuel' rest where "fuel = Suc fuel'"
      "of_nat (length acc) < args_count args"
      "its = iteration_from env args tc cutoff acc b # rest"
      "potentialMessagesToClean (iteration_from env args tc cutoff acc b) \<noteq> []"
      "\<not> posted_at (last (potentialMessagesToClean (iteration_from env args tc cutoff acc b))) < cutoff"
      "paging_loop env args tc cutoff fuel'
         (messagesToClean_after (iteration_from env args tc cutoff acc b))
         (beforeId_after (iteration_from env args tc cutoff acc b)) = Some (r, rest)"
proof (cases fuel)
  case 0
  with assms show ?thesis by simp
next
  case (Suc fuel')
  with assms have eq: "paging_loop env args tc cutoff (Suc fuel') acc b = Some (r, its)" by simp
  show ?thesis
  proof (cases "of_nat (length acc) < args_count args")
    case False
    with eq have "r = acc" "its = []" by (simp_all add: paging_loop_Suc)
    with False show ?thesis by (rule exit)
  next
    case True
    show ?thesis
    proof (cases "potentialMessagesToClean (iteration_from env args tc cutoff acc b) = []
       \<or> posted_at (last (potentialMessagesToClean (iteration_from env args tc cutoff acc b))) < cutoff")
      case stop: True
      with eq True have "its = [iteration_from env args tc cutoff acc b]"
        "r = messagesToClean_after (iteration_from env args tc cutoff acc b)"
        unfolding paging_loop_Suc by auto
      with True stop show ?thesis using final by blast
    next
      case go: False
      with eq True obtain rest where
        "paging_loop env args tc cutoff fuel'
         (messagesToClean_after (iteration_from env args tc cutoff acc b))
         (beforeId_after (iteration_from env args tc cutoff acc b)) = Some (r, rest)"
        "its = iteration_from env args tc cutoff acc b # rest"
        unfolding paging_loop_Suc by auto
      with Suc True go show ?thesis using again by blast
    qed
  qed
qed


text \<open>
  The loop stops when the store hands out ever earlier cursors: if every non-empty batch
  ends in a message whose id ranks below the cursor it was fetched with, then fuel above
  the rank of the starting cursor is enough.
\<close>

lemma paging_loop_returns:
  assumes "\<And>b. getLatestByChannelBeforeId env (channel_id tc) b (args_count args) \<noteq> []
             \<Longrightarrow> rank (saved_id (last (getLatestByChannelBeforeId env (channel_id tc) b (args_count args))))
                   < rank b"
    and "rank b < fuel"
  shows "\<exists>r its. paging_loop env args tc cutoff fuel acc b = Some (r, its)"
  using assms(2)
proof (induction fuel arbitrary: acc b)
  case 0
  then show ?case by simp
next
  case (Suc fuel)
  let ?it = "iteration_from env args tc cutoff acc b"
  show ?case
  proof (cases "\<not> of_nat (length acc) < args_count args
                \<or> potentialMessagesToClean ?it = []
                \<or> posted_at (last (potentialMessagesToClean ?it)) < cutoff")
    case True
    then show ?thesis by (auto simp: paging_loop_Suc simp del: paging_loop.simps)
  next
    case False
    then have batch: "getLatestByChannelBeforeId env (channel_id tc) b (args_count args) \<noteq> []"
      by (simp add: iteration_from_fields)
    from assms(1) [OF batch] Suc.prems batch have "rank (beforeId_after ?it) < fuel"
      by (simp add: iteration_from_after)
    from Suc.IH [OF this] obtain r its where
      "paging_loop env args tc cutoff fuel (messagesToClean_after ?it) (beforeId_after ?it) = Some (r, its)"
      by blast
    with False show ?thesis by (simp add: paging_loop_Suc del: paging_loop.simps)
  qed
qed

lemma paging_loop_start:
  assumes "paging_loop env args tc cutoff fuel acc b = Some (r, its)"
  shows "(its = []) = (\<not> of_nat (length acc) < args_count args)"
    and "its \<noteq> [] \<Longrightarrow> hd its = iteration_from env args tc cutoff acc b"
  using assms by (cases rule: paging_loop_cases; simp)+

lemma paging_loop_each:
  assumes "paging_loop env args tc cutoff fuel acc b = Some (r, its)" and "it \<in> set its"
  shows "\<exists>acc' b'. it = iteration_from env args tc cutoff acc' b'"
  using assms
proof (induction fuel arbitrary: acc b its)
  case 0
  then show ?case by simp
next
  case (Suc fuel)
  from Suc.prems(1) show ?case
  proof (cases rule: paging_loop_cases)
    case exit
    with Suc.prems(2) show ?thesis by simp
  next
    case final
    with Suc.prems(2) show ?thesis by auto
  next
    case (again fuel' rest)
    then have rec: "paging_loop env args tc cutoff fuel
         (messagesToClean_after (iteration_from env args tc cutoff acc b))
         (beforeId_after (iteration_from env args tc cutoff acc b)) = Some (r, rest)" by simp
    from Suc.prems(2) again(3) consider "it = iteration_from env args tc cutoff acc b" | "it \<in> set rest"
      by auto
    then show ?thesis
    proof cases
      case 1
      then show ?thesis by blast
    next
      case 2
      with rec show ?thesis by (rule Suc.IH)
    qed
  qed
qed

lemma paging_loop_chain:
  assumes "paging_loop env args tc cutoff fuel acc b = Some (r, its)" and "i < length its"
  shows "(Suc i < length its \<longrightarrow> it_beforeId (its ! Suc i) = beforeId_after (its ! i))
       \<and> ((Suc i = length its) =
            (potentialMessagesToClean (its ! i) = []
             \<or> posted_at (last (potentialMessagesToClean (its ! i))) < cutoff
             \<or> \<not> of_nat (length (messagesToClean_after (its ! i))) < args_count args))"
  using assms
proof (induction fuel arbitrary: acc b its i)
  case 0
  then show ?case by simp
next
  case (Suc fuel)
  from Suc.prems(1) show ?case
  proof (cases rule: paging_loop_cases)
    case exit
    with Suc.prems(2) show ?thesis by simp
  next
    case final
    with Suc.prems(2) show ?thesis by auto
  next
    case (again fuel' rest)
    let ?it = "iteration_from env args tc cutoff acc b"
    from again have rec: "paging_loop env args tc cutoff fuel
         (messagesToClean_after ?it) (beforeId_after ?it) = Some (r, rest)" by simp
    show ?thesis
    proof (cases i)
      case 0
      have empty: "(rest = []) = (\<not> of_nat (length (messagesToClean_after ?it)) < args_count args)"
        using rec by (rule paging_loop_start(1))
      have "rest \<noteq> [] \<Longrightarrow> it_beforeId (hd rest) = beforeId_after ?it"
        using paging_loop_start(2) [OF rec] by (simp add: iteration_from_fields)
      then have next_cursor: "rest \<noteq> [] \<Longrightarrow> it_beforeId (rest ! 0) = beforeId_after ?it"
        by (simp add: hd_conv_nth)
      from 0 again(3,4,5) empty next_cursor show ?thesis by auto
    next
      case (Suc j)
      with Suc.prems(2) again(3) have "j < length rest" by simp
      from Suc.IH [OF rec this] Suc again(3) show ?thesis by simp
    qed
  qed
qed

lemma paging_loop_filtered:
  assumes "paging_loop env args tc cutoff fuel acc b = Some (r, its)"
    and "\<forall>m\<in>set acc. message_filter env args cutoff m"
  shows "\<forall>m\<in>set r. message_filter env args cutoff m"
  using assms
proof (induction fuel arbitrary: acc b its)
  case 0
  then show ?case by simp
next
  case (Suc fuel)
  let ?it = "iteration_from env args tc cutoff acc b"
  have after: "\<forall>m\<in>set (messagesToClean_after ?it). message_filter env args cutoff m"
    using Suc.prems(2) set_slice0 [of "filter (message_filter env args cutoff)
        (getLatestByChannelBeforeId env (channel_id tc) b (args_count args))"]
    by (auto simp: iteration_from_after)
  from Suc.prems(1) show ?case
  proof (cases rule: paging_loop_cases)
    case exit
    with Suc.prems(2) show ?thesis by simp
  next
    case final
    with after show ?thesis by simp
  next
    case (again fuel' rest)
    then have "paging_loop env args tc cutoff fuel
         (messagesToClean_after ?it) (beforeId_after ?it) = Some (r, rest)" by simp
    from this after show ?thesis by (rule Suc.IH)
  qed
qed

lemma message_filter_holds:
  assumes "message_filter env args cutoff m"
  shows "(\<forall>u. args_user args = Some u \<longrightarrow> u \<noteq> [] \<longrightarrow> user_id m = u)"
    and "args_bots args \<longrightarrow> is_bot m"
    and "args_has_invites args \<longrightarrow>
           getInviteCodesInString env (case data_content m of None \<Rightarrow> [] | Some c \<Rightarrow> c) \<noteq> []"
    and "cutoff \<le> posted_at m"
  using assms by (auto simp: message_filter_def truthy_def split: if_splits)

lemma cleanMessages_Inr:
  assumes "cleanMessages env tc ms author = Inr (cleaning, url)"
  shows "ms \<noteq> []"
    and "cleaning =
          [IgnoreLog MESSAGE_DELETE (saved_id (hd ms)), IgnoreLog MESSAGE_DELETE_BULK (saved_id (hd ms))]
          @ map (IgnoreLog MESSAGE_DELETE) (map saved_id (sort_key saved_id ms))
          @ [IgnoreLog MESSAGE_DELETE_BULK (hd (map saved_id (sort_key saved_id ms))),
             DeleteMessages (channel_id tc) (map saved_id (sort_key saved_id ms)),
             MarkBulkAsDeleted (map saved_id (sort_key saved_id ms)),
             CreateFromSavedMessages (sort_key saved_id ms),
             LogClean author (channel_id tc) (length ms) url]"
  using assms by (auto simp: cleanMessages_def Let_def split: list.splits)

lemma cleanMessages_nonempty:
  assumes "ms \<noteq> []"
  shows "\<exists>cleaning url. cleanMessages env tc ms author = Inr (cleaning, url)"
  using assms by (cases ms) (simp_all add: cleanMessages_def Let_def)

lemma cleanMessages_effects:
  assumes "cleanMessages env tc ms author = Inr (cleaning, url)"
  shows "SetTimeout acts d \<notin> set cleaning"
    and "DeleteMessages ch ids \<in> set cleaning \<Longrightarrow> ids = map saved_id (sort_key saved_id ms)"
    and "CreateFromSavedMessages archived \<in> set cleaning \<Longrightarrow> archived = sort_key saved_id ms"
    and "LogClean a c n u \<in> set cleaning \<Longrightarrow> n = length ms"
    and "SendSuccessMessage c text \<notin> set cleaning"
    and "SendErrorMessage c text \<notin> set cleaning"
  unfolding cleanMessages_Inr(2) [OF assms] by auto

lemma fetches_of_effects:
  "SetTimeout acts d \<notin> set (fetches_of its)"
  "DeleteMessages ch ids \<notin> set (fetches_of its)"
  "CreateFromSavedMessages archived \<notin> set (fetches_of its)"
  "LogClean a c n u \<notin> set (fetches_of its)"
  "SendSuccessMessage c text \<notin> set (fetches_of its)"
  "SendErrorMessage c text \<notin> set (fetches_of its)"
  by (auto simp: fetches_of_def)

lemma schedule_cleanup_effects:
  "DeleteMessages ch ids \<notin> set (schedule_cleanup env msg tc r)"
  "CreateFromSavedMessages archived \<notin> set (schedule_cleanup env msg tc r)"
  "LogClean a c n u \<notin> set (schedule_cleanup env msg tc r)"
  by (auto simp: schedule_cleanup_def)

lemma run_cases:
  assumes "run env msg args fuel = Some (Inr effs)"
  obtains
    (count) "args_count args > of_nat MAX_CLEAN_COUNT \<or> args_count args \<le> 0"
      "effs = [SendErrorMessage (channel_id (msg_channel msg)) ''Clean count must be between 1 and 150'']"
  | (invalid) "\<not> (args_count args > of_nat MAX_CLEAN_COUNT \<or> args_count args \<le> 0)"
      "\<forall>tc. targetChannel_of env msg args = Some tc \<longrightarrow> \<not> isTextChannel tc"
      "effs = [SendErrorMessage (channel_id (msg_channel msg)) ''Invalid channel specified'']"
  | (forbidden) tc where "\<not> (args_count args > of_nat MAX_CLEAN_COUNT \<or> args_count args \<le> 0)"
      "targetChannel_of env msg args = Some tc" "isTextChannel tc"
      "channel_id tc \<noteq> channel_id (msg_channel msg)"
      "effs = [SendErrorMessage (channel_id (msg_channel msg))
                 ''Missing permissions to use clean on that channel'']"
  | (cleaned) tc messagesToClean its cleaning archiveUrl responseText where
      "\<not> (args_count args > of_nat MAX_CLEAN_COUNT \<or> args_count args \<le> 0)"
      "targetChannel_of env msg args = Some tc" "isTextChannel tc"
      "paging_loop env args tc (msg_timestamp msg - MAX_CLEAN_TIME env) fuel [] (msg_id msg)
         = Some (messagesToClean, its)"
      "cleanMessages env tc messagesToClean (msg_author msg) = Inr (cleaning, archiveUrl)"
      "responseText = ''Cleaned '' @ string_of_nat (length messagesToClean) @ '' ''
                       @ (if length messagesToClean = 1 then ''message'' else ''messages'')
                       @ (if channel_id tc \<noteq> channel_id (msg_channel msg)
                          then '' in <#'' @ channel_id tc @ ''>'' @ [CHR 0x0A] @ archiveUrl
                          else [])"
      "effs = fetches_of its @ cleaning
              @ [SendSuccessMessage (channel_id (msg_channel msg)) responseText]
              @ schedule_cleanup env msg tc (ResponseMessage (channel_id (msg_channel msg)) responseText)"
  | (none_found) tc its where
      "\<not> (args_count args > of_nat MAX_CLEAN_COUNT \<or> args_count args \<le> 0)"
      "targetChannel_of env msg args = Some tc" "isTextChannel tc"
      "paging_loop env args tc (msg_timestamp msg - MAX_CLEAN_TIME env) fuel [] (msg_id msg)
         = Some ([], its)"
      "effs = fetches_of its
              @ [SendErrorMessage (channel_id (msg_channel msg)) ''Found no messages to clean!'']
              @ schedule_cleanup env msg tc
                  (ResponseMessage (channel_id (msg_channel msg)) ''Found no messages to clean!'')"
proof (cases "args_count args > of_nat MAX_CLEAN_COUNT \<or> args_count args \<le> 0")
  case True
  with assms have "effs = [SendErrorMessage (channel_id (msg_channel msg)) ''Clean count must be between 1 and 150'']"
    by (simp add: run_def string_of_nat_MAX)
  with True show ?thesis by (rule count)
next
  case range: False
  show ?thesis
  proof (cases "targetChannel_of env msg args")
    case None
    with assms range have "effs = [SendErrorMessage (channel_id (msg_channel msg)) ''Invalid channel specified'']"
      by (simp add: run_def)
    with range None show ?thesis using invalid by simp
  next
    case (Some tc)
    show ?thesis
    proof (cases "isTextChannel tc")
      case False
      with assms range Some
      have "effs = [SendErrorMessage (channel_id (msg_channel msg)) ''Invalid channel specified'']"
        by (simp add: run_def)
      with range Some False show ?thesis using invalid by simp
    next
      case istext: True
      show ?thesis
      proof (cases "channel_id tc \<noteq> channel_id (msg_channel msg)
                \<and> \<not> can_clean (getMatchingConfig env (msg_author msg) (channel_id tc))")
        case True
        with assms range Some istext
        have "effs = [SendErrorMessage (channel_id (msg_channel msg))
                 ''Missing permissions to use clean on that channel'']"
          by (simp add: run_def)
        with range Some istext True show ?thesis using forbidden by blast
      next
        case allowed: False
        let ?loop = "paging_loop env args tc (msg_timestamp msg - MAX_CLEAN_TIME env) fuel [] (msg_id msg)"
        from assms range Some istext allowed
        have body: "(case ?loop of
              None \<Rightarrow> None
            | Some (messagesToClean, its) \<Rightarrow>
               if length messagesToClean > 0
                  then case cleanMessages env tc messagesToClean (msg_author msg) of
                         Inl e \<Rightarrow> Some (Inl e)
                       | Inr (cleaning, archiveUrl) \<Rightarrow>
                          Some (Inr (fetches_of its @ cleaning
                                @ [SendSuccessMessage (channel_id (msg_channel msg))
                                    (''Cleaned '' @ string_of_nat (length messagesToClean) @ '' ''
                                @ (if length messagesToClean = 1 then ''message'' else ''messages'')
                                @ (if channel_id tc \<noteq> channel_id (msg_channel msg)
                                   then '' in <#'' @ channel_id tc @ ''>''
                                        @ [CHR 0x0A] @ archiveUrl
                                   else []))]
                                @ schedule_cleanup env msg tc
                                    (ResponseMessage (channel_id (msg_channel msg)) 
                                    (''Cleaned '' @ string_of_nat (length messagesToClean) @ '' ''
                                @ (if length messagesToClean = 1 then ''message'' else ''messages'')
                                @ (if channel_id tc \<noteq> channel_id (msg_channel msg)
                                   then '' in <#'' @ channel_id tc @ ''>''
                                        @ [CHR 0x0A] @ archiveUrl
                                   else [])))))
                  else Some (Inr (fetches_of its
                         @ [SendErrorMessage (channel_id (msg_channel msg)) ''Found no messages to clean!'']
                         @ schedule_cleanup env msg tc
                             (ResponseMessage (channel_id (msg_channel msg))
                                ''Found no messages to clean!'')))) = Some (Inr effs)"
          unfolding run_def Let_def by (simp del: append_assoc append.simps)
        then obtain mtc its where loop: "?loop = Some (mtc, its)"
          by (cases ?loop) auto
        show ?thesis
        proof (cases "mtc = []")
          case True
          with body loop have e: "effs = fetches_of its
              @ [SendErrorMessage (channel_id (msg_channel msg)) ''Found no messages to clean!'']
              @ schedule_cleanup env msg tc
                  (ResponseMessage (channel_id (msg_channel msg)) ''Found no messages to clean!'')"
            by simp
          from loop True have l: "?loop = Some ([], its)" by simp
          from range Some istext l e show ?thesis by (rule none_found)
        next
          case False
          then obtain cleaning url where cm: "cleanMessages env tc mtc (msg_author msg) = Inr (cleaning, url)"
            using cleanMessages_nonempty by blast
          let ?text = "''Cleaned '' @ string_of_nat (length mtc) @ '' ''
                                @ (if length mtc = 1 then ''message'' else ''messages'')
                                @ (if channel_id tc \<noteq> channel_id (msg_channel msg)
                                   then '' in <#'' @ channel_id tc @ ''>''
                                        @ [CHR 0x0A] @ url
                                   else [])"
          from body loop False cm have e: "effs = fetches_of its @ cleaning
              @ [SendSuccessMessage (channel_id (msg_channel msg)) ?text]
              @ schedule_cleanup env msg tc (ResponseMessage (channel_id (msg_channel msg)) ?text)"
            by (simp del: append_assoc append.simps)
          from range Some istext loop cm refl e show ?thesis by (rule cleaned)
        qed
      qed
    qed
  qed
qed


lemma run_never_throws: "run env msg args fuel \<noteq> Some (Inl e)"
proof (cases "paging_loop env args (the (targetChannel_of env msg args))
                (msg_timestamp msg - MAX_CLEAN_TIME env) fuel [] (msg_id msg)")
  case None
  then show ?thesis
    by (auto simp: run_def Let_def split: option.splits)
next
  case (Some a)
  obtain mtc its where a: "a = (mtc, its)" by (cases a)
  show ?thesis
  proof (cases "mtc = []")
    case True
    with Some a show ?thesis
      by (auto simp: run_def Let_def split: option.splits)
  next
    case False
    then obtain cleaning url where
      "cleanMessages env (the (targetChannel_of env msg args)) mtc (msg_author msg) = Inr (cleaning, url)"
      using cleanMessages_nonempty by blast
    with Some a False show ?thesis
      by (auto simp: run_def Let_def split: option.splits)
  qed
qed

subsection \<open>When the loop stops\<close>

text \<open>
  The loop returns at the first execution of the body that ends in one of its three exits,
  with one record for every execution up to that one; and when it returns, there was such
  an execution.
\<close>

lemma nth_iteration_shift:
  "nth_iteration env args tc cutoff acc b (Suc k)
   = nth_iteration env args tc cutoff
       (messagesToClean_after (iteration_from env args tc cutoff acc b))
       (beforeId_after (iteration_from env args tc cutoff acc b)) k"
  by (induction k) simp_all

lemma nth_iteration_fields:
  "it_channelId (nth_iteration env args tc cutoff acc b k) = channel_id tc"
  "it_limit (nth_iteration env args tc cutoff acc b k) = args_count args"
  "potentialMessagesToClean (nth_iteration env args tc cutoff acc b k)
     = getLatestByChannelBeforeId env (channel_id tc)
         (it_beforeId (nth_iteration env args tc cutoff acc b k)) (args_count args)"
  by (cases k; simp add: iteration_from_fields)+

lemma nth_iteration_cursor:
  "it_beforeId (nth_iteration env args tc cutoff acc b 0) = b"
  "potentialMessagesToClean (nth_iteration env args tc cutoff acc b k) \<noteq> []
   \<Longrightarrow> it_beforeId (nth_iteration env args tc cutoff acc b (Suc k))
       = saved_id (last (potentialMessagesToClean (nth_iteration env args tc cutoff acc b k)))"
proof -
  show "it_beforeId (nth_iteration env args tc cutoff acc b 0) = b"
    by (simp add: iteration_from_fields)
next
  let ?it = "nth_iteration env args tc cutoff acc b k"
  assume nonempty: "potentialMessagesToClean ?it \<noteq> []"
  have "it_beforeId (nth_iteration env args tc cutoff acc b (Suc k)) = beforeId_after ?it"
    by (simp add: iteration_from_fields)
  also have "beforeId_after ?it = saved_id (last (potentialMessagesToClean ?it))"
    using nonempty by (cases k) (simp_all add: iteration_from_fields iteration_from_after)
  finally show "it_beforeId (nth_iteration env args tc cutoff acc b (Suc k))
       = saved_id (last (potentialMessagesToClean ?it))" .
qed

lemma paging_loop_stops:
  assumes "of_nat (length acc) < args_count args"
    and "stops_at args cutoff (nth_iteration env args tc cutoff acc b n)"
    and "\<forall>k<n. \<not> stops_at args cutoff (nth_iteration env args tc cutoff acc b k)"
    and "n + 1 < fuel"
  shows "paging_loop env args tc cutoff fuel acc b
         = Some (messagesToClean_after (nth_iteration env args tc cutoff acc b n),
                 map (nth_iteration env args tc cutoff acc b) [0..<Suc n])"
  using assms
proof (induction n arbitrary: acc b fuel)
  case 0
  let ?it = "iteration_from env args tc cutoff acc b"
  from "0.prems"(4) obtain f where fuel: "fuel = Suc (Suc f)"
    by (metis Suc_eq_plus1 add_0 less_imp_Suc_add add_Suc)
  from "0.prems"(2) have stop: "stops_at args cutoff ?it" by simp
  show ?case
  proof (cases "potentialMessagesToClean ?it = []
                \<or> posted_at (last (potentialMessagesToClean ?it)) < cutoff")
    case True
    with "0.prems"(1) show ?thesis
      unfolding fuel paging_loop_Suc [of env args tc cutoff "Suc f"] by simp
  next
    case False
    with stop have full: "\<not> of_nat (length (messagesToClean_after ?it)) < args_count args"
      by (simp add: stops_at_def)
    then have "paging_loop env args tc cutoff (Suc f) (messagesToClean_after ?it) (beforeId_after ?it)
               = Some (messagesToClean_after ?it, [])"
      unfolding paging_loop_Suc by simp
    with "0.prems"(1) False show ?thesis
      unfolding fuel paging_loop_Suc [of env args tc cutoff "Suc f" acc b] by simp
  qed
next
  case (Suc n)
  let ?it = "iteration_from env args tc cutoff acc b"
  let ?acc = "messagesToClean_after ?it"
  let ?b = "beforeId_after ?it"
  from Suc.prems(4) obtain f where fuel: "fuel = Suc f" and f: "n + 1 < f"
    by (cases fuel) auto
  from Suc.prems(3) have "\<not> stops_at args cutoff (nth_iteration env args tc cutoff acc b 0)"
    by blast
  then have go: "potentialMessagesToClean ?it \<noteq> []"
    "\<not> posted_at (last (potentialMessagesToClean ?it)) < cutoff"
    "of_nat (length ?acc) < args_count args"
    by (simp_all add: stops_at_def)
  have stop': "stops_at args cutoff (nth_iteration env args tc cutoff ?acc ?b n)"
    using Suc.prems(2) unfolding nth_iteration_shift .
  have before': "\<forall>k<n. \<not> stops_at args cutoff (nth_iteration env args tc cutoff ?acc ?b k)"
  proof (intro allI impI)
    fix k assume "k < n"
    then have "Suc k < Suc n" by simp
    with Suc.prems(3) have "\<not> stops_at args cutoff (nth_iteration env args tc cutoff acc b (Suc k))"
      by blast
    then show "\<not> stops_at args cutoff (nth_iteration env args tc cutoff ?acc ?b k)"
      unfolding nth_iteration_shift .
  qed
  have rec: "paging_loop env args tc cutoff f ?acc ?b
        = Some (messagesToClean_after (nth_iteration env args tc cutoff ?acc ?b n),
                 map (nth_iteration env args tc cutoff ?acc ?b) [0..<Suc n])"
    using go(3) stop' before' f by (rule Suc.IH)
  have trace: "map (nth_iteration env args tc cutoff acc b) [0..<Suc (Suc n)]
        = ?it # map (nth_iteration env args tc cutoff ?acc ?b) [0..<Suc n]"
  proof -
    have "[0..<Suc (Suc n)] = 0 # map Suc [0..<Suc n]"
      by (simp only: upt_conv_Cons [of 0 "Suc (Suc n)"] map_Suc_upt zero_less_Suc if_True)
    then have "map (nth_iteration env args tc cutoff acc b) [0..<Suc (Suc n)]
        = nth_iteration env args tc cutoff acc b 0
          # map (\<lambda>k. nth_iteration env args tc cutoff acc b (Suc k)) [0..<Suc n]"
      by (simp add: comp_def del: upt_Suc)
    then show ?thesis by (simp only: nth_iteration_shift nth_iteration.simps(1))
  qed
  have last_one: "nth_iteration env args tc cutoff acc b (Suc n) = nth_iteration env args tc cutoff ?acc ?b n"
    by (rule nth_iteration_shift)
  show ?case
    unfolding fuel paging_loop_Suc [of env args tc cutoff f acc b] trace last_one
    using Suc.prems(1) go rec by simp
qed

lemma paging_loop_stopped:
  assumes "paging_loop env args tc cutoff fuel acc b = Some (r, its)"
    and "of_nat (length acc) < args_count args"
  shows "\<exists>n<fuel. stops_at args cutoff (nth_iteration env args tc cutoff acc b n)
           \<and> (\<forall>k<n. \<not> stops_at args cutoff (nth_iteration env args tc cutoff acc b k))"
  using assms
proof (induction fuel arbitrary: acc b its)
  case 0
  then show ?case by simp
next
  case (Suc fuel)
  let ?it = "iteration_from env args tc cutoff acc b"
  from Suc.prems(1) show ?case
  proof (cases rule: paging_loop_cases)
    case exit
    with Suc.prems(2) show ?thesis by simp
  next
    case final
    then have "stops_at args cutoff (nth_iteration env args tc cutoff acc b 0)"
      by (auto simp: stops_at_def)
    then show ?thesis by (intro exI [of _ 0]) simp
  next
    case (again fuel' rest)
    then have rec: "paging_loop env args tc cutoff fuel
         (messagesToClean_after ?it) (beforeId_after ?it) = Some (r, rest)" by simp
    show ?thesis
    proof (cases "of_nat (length (messagesToClean_after ?it)) < args_count args")
      case False
      then have "stops_at args cutoff (nth_iteration env args tc cutoff acc b 0)"
        by (simp add: stops_at_def)
      then show ?thesis by (intro exI [of _ 0]) simp
    next
      case True
      from Suc.IH [OF rec True] obtain m where m: "m < fuel"
        "stops_at args cutoff (nth_iteration env args tc cutoff
            (messagesToClean_after ?it) (beforeId_after ?it) m)"
        "\<forall>k<m. \<not> stops_at args cutoff (nth_iteration env args tc cutoff
            (messagesToClean_after ?it) (beforeId_after ?it) k)"
        by blast
      have first: "\<not> stops_at args cutoff (nth_iteration env args tc cutoff acc b 0)"
        using again(4,5) True by (simp add: stops_at_def)
      have "\<not> stops_at args cutoff (nth_iteration env args tc cutoff acc b k)" if "k < Suc m" for k
      proof (cases k)
        case 0
        with first show ?thesis by simp
      next
        case (Suc j)
        with that have "j < m" by simp
        with m(3) show ?thesis unfolding Suc nth_iteration_shift by blast
      qed
      moreover have "stops_at args cutoff (nth_iteration env args tc cutoff acc b (Suc m))"
        using m(2) unfolding nth_iteration_shift .
      ultimately show ?thesis using m(1) by (intro exI [of _ "Suc m"]) simp
    qed
  qed
qed


lemma fetches_of_only_fetches:
  "e \<in> set (fetches_of its) \<Longrightarrow> \<exists>c b l. e = GetLatestByChannelBeforeId c b l"
  by (auto simp: fetches_of_def)

lemma run_past_guards:
  assumes "0 < args_count args" and "args_count args \<le> of_nat MAX_CLEAN_COUNT"
    and "targetChannel_of env msg args = Some tc" and "isTextChannel tc"
    and "channel_id tc = channel_id (msg_channel msg)
         \<or> can_clean (getMatchingConfig env (msg_author msg) (channel_id tc))"
  shows "paging_loop env args tc (msg_timestamp msg - MAX_CLEAN_TIME env) fuel [] (msg_id msg) = None
         \<Longrightarrow> run env msg args fuel = None"
    and "paging_loop env args tc (msg_timestamp msg - MAX_CLEAN_TIME env) fuel [] (msg_id msg)
           = Some (collected, its)
         \<Longrightarrow> \<exists>rest. run env msg args fuel = Some (Inr (fetches_of its @ rest))
                  \<and> (\<forall>c b l. GetLatestByChannelBeforeId c b l \<notin> set rest)"
proof -
  have guard: "\<not> (args_count args > of_nat MAX_CLEAN_COUNT \<or> args_count args \<le> 0)"
    using assms(1,2) by simp
  have allowed: "(channel_id tc \<noteq> channel_id (msg_channel msg)
                \<and> \<not> can_clean (getMatchingConfig env (msg_author msg) (channel_id tc))) = False"
    using assms(5) by blast
  show "run env msg args fuel = None"
    if "paging_loop env args tc (msg_timestamp msg - MAX_CLEAN_TIME env) fuel [] (msg_id msg) = None"
    using that guard assms(3,4,5) unfolding run_def Let_def by auto
  show "\<exists>rest. run env msg args fuel = Some (Inr (fetches_of its @ rest))
                  \<and> (\<forall>c b l. GetLatestByChannelBeforeId c b l \<notin> set rest)"
    if loop: "paging_loop env args tc (msg_timestamp msg - MAX_CLEAN_TIME env) fuel [] (msg_id msg)
           = Some (collected, its)"
  proof (cases "collected = []")
    case True
    with loop guard assms(3,4,5)
    have "run env msg args fuel = Some (Inr (fetches_of its
              @ ([SendErrorMessage (channel_id (msg_channel msg)) ''Found no messages to clean!'']
              @ schedule_cleanup env msg tc
                  (ResponseMessage (channel_id (msg_channel msg)) ''Found no messages to clean!''))))"
      unfolding run_def Let_def by auto
    moreover have "\<forall>c b l. GetLatestByChannelBeforeId c b l \<notin>
        set ([SendErrorMessage (channel_id (msg_channel msg)) ''Found no messages to clean!'']
              @ schedule_cleanup env msg tc
                  (ResponseMessage (channel_id (msg_channel msg)) ''Found no messages to clean!''))"
      by (simp add: schedule_cleanup_def)
    ultimately show ?thesis by blast
  next
    case False
    then obtain cleaning url where
      cm: "cleanMessages env tc collected (msg_author msg) = Inr (cleaning, url)"
      using cleanMessages_nonempty by blast
    let ?sent = "''Cleaned '' @ string_of_nat (length collected) @ '' ''
                   @ (if length collected = 1 then ''message'' else ''messages'')
                   @ (if channel_id tc \<noteq> channel_id (msg_channel msg)
                      then '' in <#'' @ channel_id tc @ ''>'' @ [CHR 0x0A] @ url
                      else [])"
    let ?rest = "cleaning @ [SendSuccessMessage (channel_id (msg_channel msg)) ?sent]
                 @ schedule_cleanup env msg tc (ResponseMessage (channel_id (msg_channel msg)) ?sent)"
    from loop guard assms(3,4,5) False cm
    have "run env msg args fuel = Some (Inr (fetches_of its @ ?rest))"
      unfolding run_def Let_def by (auto simp del: append_assoc append.simps)
    moreover have "\<forall>c b l. GetLatestByChannelBeforeId c b l \<notin> set ?rest"
      unfolding cleanMessages_Inr(2) [OF cm] by (auto simp: schedule_cleanup_def)
    ultimately show ?thesis by blast
  qed
qed

subsection \<open>The example, evaluated\<close>

lemma example_paging_loop:
  "paging_loop example_env example_args (msg_channel example_msg)
     (msg_timestamp example_msg - MAX_CLEAN_TIME example_env) 3 [] (msg_id example_msg)
   = Some ([example_m80, example_m70, example_m60], example_iterations)"
  by code_simp

lemma example_run:
  "run example_env example_msg example_args 3 = Some (Inr example_effects)"
  by code_simp

lemma example_run_user:
  "run example_env example_msg (example_args\<lparr>args_user := Some ''u1''\<rparr>) 4
   = Some (Inr example_effects_user)"
  by code_simp

subsection \<open>The claims\<close>

text \<open>
  C8. When the count is greater than 150 or not greater than 0, run sends the error message
  "Clean count must be between 1 and 150" to the invoking channel and returns, whatever the
  fuel: that one send is everything it does, so the message store is not queried and no
  message is deleted.
\<close>

theorem run_rejects_count_out_of_range:
  assumes "args_count args > 150 \<or> args_count args \<le> 0"
  shows "run env msg args fuel
         = Some (Inr [SendErrorMessage (channel_id (msg_channel msg))
                        ''Clean count must be between 1 and 150''])"
  using assms by (simp add: run_def MAX_CLEAN_COUNT_def string_of_nat_MAX [unfolded MAX_CLEAN_COUNT_def])

theorem run_rejects_count_out_of_range_witness:
  "(args_count (example_args\<lparr>args_count := 151\<rparr>) > 150
      \<or> args_count (example_args\<lparr>args_count := 151\<rparr>) \<le> 0)
   \<and> run example_env example_msg (example_args\<lparr>args_count := 151\<rparr>) 0
       = Some (Inr [SendErrorMessage ''c1'' ''Clean count must be between 1 and 150''])"
proof -
  have range: "args_count (example_args\<lparr>args_count := 151\<rparr>) > 150
      \<or> args_count (example_args\<lparr>args_count := 151\<rparr>) \<le> 0"
    by simp
  from run_rejects_count_out_of_range [OF range, of example_env example_msg 0] range
  show ?thesis by (simp add: example_msg_def)
qed

text \<open>
  C4. Take an invocation that gets as far as the paging loop: its count is in range, its
  target channel exists and is a text channel, and the author may clean there. Let \<open>it k\<close>
  be the executions of the loop body, the first starting with nothing collected and the
  cursor at the invoking message's id, and let an execution stop the loop when its batch is
  empty, or the batch's last message (the oldest, as the store returns batches newest first)
  was posted before the invoking message's timestamp minus one day, or the messages
  collected are no longer fewer than the count. Then every execution fetches from the target
  channel, at its cursor, with the count as limit; after a non-empty batch the next cursor
  is the id of the batch's last message; with enough fuel run returns having fetched
  exactly once for every execution up to the first that stops the loop, and nothing from
  the store after it; and run returns only if some execution stops the loop.
\<close>

theorem run_pages_until_first_stop:
  assumes "0 < args_count args" and "args_count args \<le> of_nat MAX_CLEAN_COUNT"
    and "targetChannel_of env msg args = Some targetChannel" and "isTextChannel targetChannel"
    and "channel_id targetChannel = channel_id (msg_channel msg)
         \<or> can_clean (getMatchingConfig env (msg_author msg) (channel_id targetChannel))"
    and "it = nth_iteration env args targetChannel (msg_timestamp msg - 1 * DAYS env) [] (msg_id msg)"
    and "stops = (\<lambda>k. potentialMessagesToClean (it k) = []
                    \<or> posted_at (last (potentialMessagesToClean (it k))) < msg_timestamp msg - 1 * DAYS env
                    \<or> \<not> of_nat (length (messagesToClean_after (it k))) < args_count args)"
  shows "it_beforeId (it 0) = msg_id msg
       \<and> (\<forall>k. potentialMessagesToClean (it k) \<noteq> []
              \<longrightarrow> it_beforeId (it (Suc k)) = saved_id (last (potentialMessagesToClean (it k))))
       \<and> (\<forall>k. potentialMessagesToClean (it k)
                = getLatestByChannelBeforeId env (channel_id targetChannel) (it_beforeId (it k))
                    (args_count args))
       \<and> (\<forall>n fuel. stops n \<and> (\<forall>k<n. \<not> stops k) \<and> n + 1 < fuel \<longrightarrow>
             (\<exists>rest. run env msg args fuel
                       = Some (Inr (map (\<lambda>k. GetLatestByChannelBeforeId (channel_id targetChannel)
                                              (it_beforeId (it k)) (args_count args)) [0..<Suc n]
                                    @ rest))
                    \<and> (\<forall>c b l. GetLatestByChannelBeforeId c b l \<notin> set rest)))
       \<and> (\<forall>fuel result. run env msg args fuel = Some result \<longrightarrow>
             (\<exists>n<fuel. stops n \<and> (\<forall>k<n. \<not> stops k)))"
proof -
  let ?cutoff = "msg_timestamp msg - MAX_CLEAN_TIME env"
  have cutoff: "msg_timestamp msg - 1 * DAYS env = ?cutoff"
    by (simp add: MAX_CLEAN_TIME_def)
  have it: "it = nth_iteration env args targetChannel ?cutoff [] (msg_id msg)"
    using assms(6) unfolding cutoff .
  have stops: "stops k = stops_at args ?cutoff (it k)" for k
    unfolding assms(7) cutoff stops_at_def ..
  have start: "of_nat (length ([] :: SavedMessage list)) < args_count args"
    using assms(1) by simp
  have first: "it_beforeId (it 0) = msg_id msg"
    unfolding it by (rule nth_iteration_cursor(1))
  have advance: "it_beforeId (it (Suc k)) = saved_id (last (potentialMessagesToClean (it k)))"
    if "potentialMessagesToClean (it k) \<noteq> []" for k
    using that unfolding it by (rule nth_iteration_cursor(2))
  have fetch: "potentialMessagesToClean (it k)
                = getLatestByChannelBeforeId env (channel_id targetChannel) (it_beforeId (it k))
                    (args_count args)" for k
    unfolding it by (rule nth_iteration_fields(3))
  have returns: "\<exists>rest. run env msg args fuel
                       = Some (Inr (map (\<lambda>k. GetLatestByChannelBeforeId (channel_id targetChannel)
                                              (it_beforeId (it k)) (args_count args)) [0..<Suc n]
                                    @ rest))
                    \<and> (\<forall>c b l. GetLatestByChannelBeforeId c b l \<notin> set rest)"
    if "stops n" and "\<forall>k<n. \<not> stops k" and "n + 1 < fuel" for n fuel
  proof -
    from that(1,2) have "stops_at args ?cutoff (nth_iteration env args targetChannel ?cutoff [] (msg_id msg) n)"
      and "\<forall>k<n. \<not> stops_at args ?cutoff (nth_iteration env args targetChannel ?cutoff [] (msg_id msg) k)"
      unfolding stops it by blast+
    with start have "paging_loop env args targetChannel ?cutoff fuel [] (msg_id msg)
         = Some (messagesToClean_after (it n), map it [0..<Suc n])"
      unfolding it using that(3) by (rule paging_loop_stops)
    from run_past_guards(2) [OF assms(1-5) this] obtain rest where
      "run env msg args fuel = Some (Inr (fetches_of (map it [0..<Suc n]) @ rest))"
      "\<forall>c b l. GetLatestByChannelBeforeId c b l \<notin> set rest"
      by blast
    moreover have "fetches_of (map it [0..<Suc n])
        = map (\<lambda>k. GetLatestByChannelBeforeId (channel_id targetChannel)
                     (it_beforeId (it k)) (args_count args)) [0..<Suc n]"
      unfolding fetches_of_def it by (simp add: nth_iteration_fields(1,2) comp_def del: upt_Suc)
    ultimately show ?thesis by metis
  qed
  have stopped: "\<exists>n<fuel. stops n \<and> (\<forall>k<n. \<not> stops k)"
    if "run env msg args fuel = Some result" for fuel result
  proof -
    from that run_past_guards(1) [OF assms(1-5), of fuel]
    obtain collected its where
      "paging_loop env args targetChannel ?cutoff fuel [] (msg_id msg) = Some (collected, its)"
      by (cases "paging_loop env args targetChannel ?cutoff fuel [] (msg_id msg)") auto
    from paging_loop_stopped [OF this start] show ?thesis
      unfolding stops it .
  qed
  from first advance fetch returns stopped show ?thesis by blast
qed

theorem run_pages_until_first_stop_witness:
  "0 < args_count example_args \<and> args_count example_args \<le> of_nat MAX_CLEAN_COUNT
   \<and> targetChannel_of example_env example_msg example_args = Some (msg_channel example_msg)
   \<and> isTextChannel (msg_channel example_msg)
   \<and> (\<exists>rest. run example_env example_msg example_args 3
               = Some (Inr ([GetLatestByChannelBeforeId ''c1'' ''90'' 3,
                             GetLatestByChannelBeforeId ''c1'' ''70'' 3] @ rest))
             \<and> GetLatestByChannelBeforeId ''c1'' ''60'' 3 \<notin> set rest)"
proof -
  let ?it = "nth_iteration example_env example_args (msg_channel example_msg)
      (msg_timestamp example_msg - 1 * DAYS example_env) [] (msg_id example_msg)"
  let ?stops = "\<lambda>k. potentialMessagesToClean (?it k) = []
                    \<or> posted_at (last (potentialMessagesToClean (?it k)))
                        < msg_timestamp example_msg - 1 * DAYS example_env
                    \<or> \<not> of_nat (length (messagesToClean_after (?it k))) < args_count example_args"
  have low: "0 < args_count example_args"
    and high: "args_count example_args \<le> of_nat MAX_CLEAN_COUNT"
    by (simp_all add: example_args_def MAX_CLEAN_COUNT_def)
  have target: "targetChannel_of example_env example_msg example_args = Some (msg_channel example_msg)"
    by (simp add: targetChannel_of_def example_args_def)
  have textual: "isTextChannel (msg_channel example_msg)"
    by (simp add: example_msg_def)
  have same: "channel_id (msg_channel example_msg) = channel_id (msg_channel example_msg)
      \<or> can_clean (getMatchingConfig example_env (msg_author example_msg)
                     (channel_id (msg_channel example_msg)))"
    by simp
  have second: "?stops (Suc 0)"
    by code_simp
  have first: "\<not> ?stops 0"
    by code_simp
  then have before: "\<forall>k<Suc 0. \<not> ?stops k" by simp
  have fetches: "map (\<lambda>k. GetLatestByChannelBeforeId (channel_id (msg_channel example_msg))
                                        (it_beforeId (?it k)) (args_count example_args))
                              [0..<Suc (Suc 0)]
                 = [GetLatestByChannelBeforeId ''c1'' ''90'' 3,
                    GetLatestByChannelBeforeId ''c1'' ''70'' 3]"
    by code_simp
  have enough: "Suc 0 + 1 < (3::nat)" by simp
  from run_pages_until_first_stop [OF low high target textual same refl refl] second before enough
  have "\<exists>rest. run example_env example_msg example_args 3
               = Some (Inr (map (\<lambda>k. GetLatestByChannelBeforeId (channel_id (msg_channel example_msg))
                                        (it_beforeId (?it k)) (args_count example_args))
                              [0..<Suc (Suc 0)] @ rest))
             \<and> (\<forall>c b l. GetLatestByChannelBeforeId c b l \<notin> set rest)"
    by blast
  then obtain rest where
    "run example_env example_msg example_args 3
       = Some (Inr ([GetLatestByChannelBeforeId ''c1'' ''90'' 3,
                     GetLatestByChannelBeforeId ''c1'' ''70'' 3] @ rest))"
    "GetLatestByChannelBeforeId ''c1'' ''60'' 3 \<notin> set rest"
    unfolding fetches by blast
  with low high target textual show ?thesis by blast
qed

text \<open>
  The same protocol read off the records of a loop that has returned, for any target
  channel, cutoff and starting cursor.
\<close>

lemma paging_loop_trace:
  assumes "paging_loop env args targetChannel timeCutoff fuel [] (msg_id msg) = Some (messagesToClean, its)"
  shows "(\<forall>it\<in>set its.
             it_channelId it = channel_id targetChannel
           \<and> it_limit it = args_count args
           \<and> potentialMessagesToClean it
               = getLatestByChannelBeforeId env (it_channelId it) (it_beforeId it) (it_limit it)
           \<and> (potentialMessagesToClean it \<noteq> []
                \<longrightarrow> beforeId_after it = saved_id (last (potentialMessagesToClean it))))
       \<and> (its \<noteq> [] \<longrightarrow> it_beforeId (hd its) = msg_id msg)
       \<and> (\<forall>i. Suc i < length its \<longrightarrow> it_beforeId (its ! Suc i) = beforeId_after (its ! i))
       \<and> (\<forall>i<length its.
             (Suc i = length its) =
             (potentialMessagesToClean (its ! i) = []
              \<or> posted_at (last (potentialMessagesToClean (its ! i))) < timeCutoff
              \<or> \<not> of_nat (length (messagesToClean_after (its ! i))) < args_count args))
       \<and> ((its = []) = (args_count args \<le> 0))"
proof -
  have each: "it_channelId it = channel_id targetChannel
           \<and> it_limit it = args_count args
           \<and> potentialMessagesToClean it
               = getLatestByChannelBeforeId env (it_channelId it) (it_beforeId it) (it_limit it)
           \<and> (potentialMessagesToClean it \<noteq> []
                \<longrightarrow> beforeId_after it = saved_id (last (potentialMessagesToClean it)))"
    if "it \<in> set its" for it
  proof -
    from paging_loop_each [OF assms that] obtain acc' b'
      where "it = iteration_from env args targetChannel timeCutoff acc' b'" by blast
    then show ?thesis by (simp add: iteration_from_fields iteration_from_after)
  qed
  have first: "its \<noteq> [] \<longrightarrow> it_beforeId (hd its) = msg_id msg"
    using paging_loop_start(2) [OF assms] by (simp add: iteration_from_fields)
  have none: "(its = []) = (args_count args \<le> 0)"
    using paging_loop_start(1) [OF assms] by auto
  have cursor: "it_beforeId (its ! Suc i) = beforeId_after (its ! i)" if "Suc i < length its" for i
  proof -
    from that have "i < length its" by simp
    from paging_loop_chain [OF assms this] that show ?thesis by simp
  qed
  have stops: "(Suc i = length its) =
             (potentialMessagesToClean (its ! i) = []
              \<or> posted_at (last (potentialMessagesToClean (its ! i))) < timeCutoff
              \<or> \<not> of_nat (length (messagesToClean_after (its ! i))) < args_count args)"
    if "i < length its" for i
    using paging_loop_chain [OF assms that] by simp
  from each first none cursor stops show ?thesis by blast
qed


text \<open>
  C9. For a count \<open>c\<close> in range, the number of messages collected never exceeds \<open>c\<close>: it
  holds after every iteration of the paging loop and for the loop's result, so whenever run
  deletes messages it deletes at most \<open>c\<close>, and the number it logs and the number it reports
  in its response are at most \<open>c\<close>.
\<close>

theorem collected_never_exceeds_count:
  assumes "0 < args_count args" and "args_count args \<le> of_nat MAX_CLEAN_COUNT"
  shows "(\<forall>targetChannel timeCutoff fuel messagesToClean its.
            paging_loop env args targetChannel timeCutoff fuel [] (msg_id msg) = Some (messagesToClean, its)
            \<longrightarrow> (\<forall>it\<in>set its. of_nat (length (messagesToClean_after it)) \<le> args_count args)
                \<and> of_nat (length messagesToClean) \<le> args_count args)
       \<and> (\<forall>fuel effs. run env msg args fuel = Some (Inr effs) \<longrightarrow>
             (\<forall>ch ids. DeleteMessages ch ids \<in> set effs \<longrightarrow> of_nat (length ids) \<le> args_count args)
           \<and> (\<forall>a ch n url. LogClean a ch n url \<in> set effs \<longrightarrow> of_nat n \<le> args_count args)
           \<and> (\<forall>ch text. SendSuccessMessage ch text \<in> set effs \<longrightarrow>
                 (\<exists>n rest. text = ''Cleaned '' @ string_of_nat n @ '' '' @ rest
                          \<and> of_nat n \<le> args_count args)))"
proof -
  have zero: "of_nat (length ([] :: SavedMessage list)) \<le> args_count args"
    using assms(1) by simp
  have loop: "(\<forall>it\<in>set its. of_nat (length (messagesToClean_after it)) \<le> args_count args)
              \<and> of_nat (length messagesToClean) \<le> args_count args"
    if "paging_loop env args targetChannel timeCutoff fuel [] (msg_id msg) = Some (messagesToClean, its)"
    for targetChannel timeCutoff fuel messagesToClean its
    using loop_collected_bound [OF that zero] by simp
  have whole: "(\<forall>ch ids. DeleteMessages ch ids \<in> set effs \<longrightarrow> of_nat (length ids) \<le> args_count args)
           \<and> (\<forall>a ch n url. LogClean a ch n url \<in> set effs \<longrightarrow> of_nat n \<le> args_count args)
           \<and> (\<forall>ch text. SendSuccessMessage ch text \<in> set effs \<longrightarrow>
                 (\<exists>n rest. text = ''Cleaned '' @ string_of_nat n @ '' '' @ rest
                          \<and> of_nat n \<le> args_count args))"
    if "run env msg args fuel = Some (Inr effs)" for fuel effs
    using that
  proof (cases rule: run_cases)
    case count
    then show ?thesis by simp
  next
    case invalid
    then show ?thesis by simp
  next
    case (forbidden tc)
    then show ?thesis by simp
  next
    case (cleaned tc messagesToClean its cleaning archiveUrl responseText)
    have len: "of_nat (length messagesToClean) \<le> args_count args"
      using loop [OF cleaned(4)] by simp
    have d: "of_nat (length ids) \<le> args_count args" if "DeleteMessages ch ids \<in> set effs" for ch ids
    proof -
      from that have "DeleteMessages ch ids \<in> set cleaning"
        unfolding cleaned(7) by (simp add: fetches_of_effects schedule_cleanup_effects)
      then have "ids = map saved_id (sort_key saved_id messagesToClean)"
        by (rule cleanMessages_effects(2) [OF cleaned(5)])
      with len show ?thesis by simp
    qed
    have l: "of_nat n \<le> args_count args" if "LogClean a ch n url \<in> set effs" for a ch n url
    proof -
      from that have "LogClean a ch n url \<in> set cleaning"
        unfolding cleaned(7) by (simp add: fetches_of_effects schedule_cleanup_effects)
      then have "n = length messagesToClean"
        by (rule cleanMessages_effects(4) [OF cleaned(5)])
      with len show ?thesis by simp
    qed
    have s: "\<exists>n rest. sent = ''Cleaned '' @ string_of_nat n @ '' '' @ rest \<and> of_nat n \<le> args_count args"
      if "SendSuccessMessage ch sent \<in> set effs" for ch sent
    proof -
      from that have "sent = responseText"
        unfolding cleaned(7)
        by (auto simp: fetches_of_effects cleanMessages_effects(5) [OF cleaned(5)] schedule_cleanup_def)
      with cleaned(6) len show ?thesis by blast
    qed
    from d l s show ?thesis by blast
  next
    case (none_found tc its)
    then show ?thesis by (auto simp: fetches_of_effects schedule_cleanup_def)
  qed
  from loop whole show ?thesis by blast
qed

theorem collected_never_exceeds_count_witness:
  "0 < args_count example_args \<and> args_count example_args \<le> of_nat MAX_CLEAN_COUNT
   \<and> run example_env example_msg example_args 3 = Some (Inr example_effects)
   \<and> DeleteMessages ''c1'' [''60'', ''70'', ''80''] \<in> set example_effects
   \<and> of_nat (length [''60'', ''70'', ''80'']) \<le> args_count example_args"
proof -
  have low: "0 < args_count example_args"
    and high: "args_count example_args \<le> of_nat MAX_CLEAN_COUNT"
    by (simp_all add: example_args_def MAX_CLEAN_COUNT_def)
  have deleted: "DeleteMessages ''c1'' [''60'', ''70'', ''80''] \<in> set example_effects"
    by (simp add: example_effects_def)
  from collected_never_exceeds_count [OF low high, of example_env example_msg] example_run deleted
  have "of_nat (length [''60'', ''70'', ''80'']) \<le> args_count example_args"
    by blast
  with low high example_run deleted show ?thesis by blast
qed

text \<open>
  C10. The messages that run archives are the ones it passed to cleanMessages, in id order,
  and the ids it deletes are their ids. Each of them satisfies every active filter: if a
  user option was given (a user id, which is never the empty string), the message is by that
  user; if the bots switch was set, it is a bot message; if the has-invites switch was set,
  its content holds at least one invite code; and it was posted no earlier than the invoking
  message's timestamp minus MAX_CLEAN_TIME, one day.
\<close>

theorem cleaned_messages_pass_filters:
  assumes "run env msg args fuel = Some (Inr effs)"
    and "CreateFromSavedMessages savedMessages \<in> set effs"
  shows "(\<forall>ch ids. DeleteMessages ch ids \<in> set effs \<longrightarrow> ids = map saved_id savedMessages)
       \<and> (\<forall>m\<in>set savedMessages.
              (\<forall>u. args_user args = Some u \<longrightarrow> u \<noteq> [] \<longrightarrow> user_id m = u)
            \<and> (args_bots args \<longrightarrow> is_bot m)
            \<and> (args_has_invites args \<longrightarrow>
                  getInviteCodesInString env (case data_content m of None \<Rightarrow> [] | Some c \<Rightarrow> c) \<noteq> [])
            \<and> msg_timestamp msg - MAX_CLEAN_TIME env \<le> posted_at m)"
  using assms(1)
proof (cases rule: run_cases)
  case count
  with assms(2) show ?thesis by simp
next
  case invalid
  with assms(2) show ?thesis by simp
next
  case (forbidden tc)
  with assms(2) show ?thesis by simp
next
  case (none_found tc its)
  with assms(2) show ?thesis by (auto simp: fetches_of_effects schedule_cleanup_def)
next
  case (cleaned tc messagesToClean its cleaning archiveUrl responseText)
  let ?cutoff = "msg_timestamp msg - MAX_CLEAN_TIME env"
  from assms(2) have "CreateFromSavedMessages savedMessages \<in> set cleaning"
    unfolding cleaned(7) by (simp add: fetches_of_effects schedule_cleanup_effects)
  then have archived: "savedMessages = sort_key saved_id messagesToClean"
    by (rule cleanMessages_effects(3) [OF cleaned(5)])
  have ids: "ids = map saved_id savedMessages" if "DeleteMessages ch ids \<in> set effs" for ch ids
  proof -
    from that have "DeleteMessages ch ids \<in> set cleaning"
      unfolding cleaned(7) by (simp add: fetches_of_effects schedule_cleanup_effects)
    then show ?thesis unfolding archived by (rule cleanMessages_effects(2) [OF cleaned(5)])
  qed
  have "\<forall>m\<in>set messagesToClean. message_filter env args ?cutoff m"
    using cleaned(4) by (rule paging_loop_filtered) simp
  then have pass: "message_filter env args ?cutoff m" if "m \<in> set savedMessages" for m
    using that unfolding archived by simp
  from ids message_filter_holds [OF pass] show ?thesis by blast
qed

theorem cleaned_messages_pass_filters_witness:
  "run example_env example_msg (example_args\<lparr>args_user := Some ''u1''\<rparr>) 4
     = Some (Inr example_effects_user)
   \<and> CreateFromSavedMessages [example_m60, example_m80] \<in> set example_effects_user
   \<and> DeleteMessages ''c1'' [''60'', ''80''] \<in> set example_effects_user
   \<and> user_id example_m60 = ''u1'' \<and> user_id example_m80 = ''u1''
   \<and> 100000000 - 86400000 \<le> posted_at example_m60"
proof -
  have archived: "CreateFromSavedMessages [example_m60, example_m80] \<in> set example_effects_user"
    and deleted: "DeleteMessages ''c1'' [''60'', ''80''] \<in> set example_effects_user"
    by (simp_all add: example_effects_user_def)
  from cleaned_messages_pass_filters [OF example_run_user archived]
  have "user_id example_m60 = ''u1'' \<and> user_id example_m80 = ''u1''
        \<and> 100000000 - 86400000 \<le> posted_at example_m60"
    by (simp add: example_args_def example_msg_def example_env_def MAX_CLEAN_TIME_def)
  with example_run_user archived deleted show ?thesis by blast
qed




end
